theory Spec2Isabelle
  imports Complex_Main
begin

section \<open>Symbols and the weighted generator (utils/gameLogic)\<close>

text \<open>
  The type \<open>Symbol\<close> of the source is a union of six string literals. The ambient random
  source \<open>Math.random()\<close> is made an explicit argument: every function that draws takes
  the drawn number, a real in the interval from 0 (included) to 1 (excluded). Numbers are
  modelled as exact reals; the weights of the table are dyadic and add up exactly.
\<close>

datatype symbol = Cherry | Lemon | Grape | Diamond | Bell | Star

definition SYMBOLS :: "symbol list" where
  "SYMBOLS = [Cherry, Lemon, Grape, Diamond, Bell, Star]"

text \<open>The object literal \<open>BASE_SYMBOL_WEIGHTS\<close>, as its entries in insertion order.\<close>

definition BASE_SYMBOL_WEIGHTS :: "(symbol \<times> real) list" where
  "BASE_SYMBOL_WEIGHTS =
     [(Cherry, 1), (Lemon, 23.75), (Grape, 23.75), (Diamond, 23.75), (Bell, 23.75), (Star, 4.5)]"

definition totalWeight :: real where
  "totalWeight = foldl (\<lambda>a b. a + b) 0 (map snd BASE_SYMBOL_WEIGHTS)"

text \<open>
  The \<open>for\<close> loop of \<open>generateWeightedSymbol\<close>: subtract the weight, return the symbol as
  soon as the remainder is not positive. \<open>None\<close> stands for leaving the loop without a
  \<open>return\<close>.
\<close>

fun weightedLoop :: "real \<Rightarrow> (symbol \<times> real) list \<Rightarrow> symbol option" where
  "weightedLoop random [] = None"
| "weightedLoop random ((symbol, weight) # rest) =
     (let random' = random - weight
      in if random' \<le> 0 then Some symbol else weightedLoop random' rest)"

definition generateWeightedSymbol :: "real \<Rightarrow> symbol" where
  "generateWeightedSymbol u =
     (let random = u * totalWeight
      in case weightedLoop random BASE_SYMBOL_WEIGHTS of
           Some symbol \<Rightarrow> symbol
         | None \<Rightarrow> Lemon)"

text \<open>\<open>checkPremiumFlag\<close> compares its draw against the literal 1.\<close>

definition checkPremiumFlag :: "real \<Rightarrow> bool" where
  "checkPremiumFlag u = (u < 1)"

definition generatePremiumFlag :: "symbol list" where
  "generatePremiumFlag = [Star, Star, Star]"

section \<open>Strings, reel slots and the per-spin checks\<close>

text \<open>
  A string is the list of its code points. The six symbols are the one-character strings
  of utils/gameLogic and of the type \<open>Symbol\<close>. The game screen is written with two
  literals of its own: the placeholder it shows while a reel spins (three characters,
  lines 47 and 240) and the string it compares with when it looks for a cherry (four
  characters, lines 72 and 103). Neither is one of the six symbols.

  The state variable \<open>reels\<close> holds \<open>null\<close> before the first spin, the placeholder while a
  reel spins and a symbol once it is stopped, so an array element is \<open>null\<close> or a string.
  The checks below are the source's: \<open>===\<close> is equality of slots.
\<close>

fun symbolText :: "symbol \<Rightarrow> nat list" where
  "symbolText Cherry = [0x1F352]"
| "symbolText Lemon = [0x1F34B]"
| "symbolText Grape = [0x1F347]"
| "symbolText Diamond = [0x1F48E]"
| "symbolText Bell = [0x1F514]"
| "symbolText Star = [0x1F320]"

datatype slot = Null | Str "nat list"

definition Sym :: "symbol \<Rightarrow> slot" where
  "Sym x = Str (symbolText x)"

definition Placeholder :: slot where
  "Placeholder = Str [0x201A, 0xF9, 0xEC]"

definition screenCherry :: slot where
  "screenCherry = Str [0xF8FF, 0xFC, 0xE7, 0xED]"

definition isSymbol :: "slot \<Rightarrow> bool" where
  "isSymbol x = (x \<in> set (map Sym SYMBOLS))"

text \<open>The checks of utils/gameLogic, written with the symbols' own strings.\<close>

fun checkSmallYakuMatch :: "slot list \<Rightarrow> bool" where
  "checkSmallYakuMatch symbols =
     (if length symbols \<noteq> 3 then False
      else symbols ! 0 = symbols ! 1 \<and> symbols ! 1 = symbols ! 2
           \<and> symbols ! 0 \<noteq> Sym Cherry \<and> symbols ! 0 \<noteq> Sym Star)"

definition isPremiumFlag :: "slot list \<Rightarrow> bool" where
  "isPremiumFlag symbols = (length symbols = 3 \<and> list_all (\<lambda>s. s = Sym Star) symbols)"

fun countCherries :: "slot list list \<Rightarrow> nat" where
  "countCherries [] = 0"
| "countCherries (reel # reels) = length (filter (\<lambda>s. s = Sym Cherry) reel) + countCherries reels"

section \<open>Classification and resolution (first and second half of checkRoundResult)\<close>

record classification =
  cherryCount :: nat
  hasSmallYaku :: bool
  hasPremiumFlag :: bool

text \<open>
  One iteration of the loop over \<open>finalSpinResults\<close>, and the loop. The filter of line
  103 compares with the game screen's own cherry literal.
\<close>

definition classifyStep :: "classification \<Rightarrow> slot list \<Rightarrow> classification" where
  "classifyStep c spinResult =
     \<lparr> cherryCount = cherryCount c + length (filter (\<lambda>s. s = screenCherry) spinResult),
       hasSmallYaku = (if checkSmallYakuMatch spinResult then True else hasSmallYaku c),
       hasPremiumFlag = (if isPremiumFlag spinResult then True else hasPremiumFlag c) \<rparr>"

definition classify :: "slot list list \<Rightarrow> classification" where
  "classify finalSpinResults =
     foldl classifyStep \<lparr> cherryCount = 0, hasSmallYaku = False, hasPremiumFlag = False \<rparr>
       finalSpinResults"

text \<open>
  The four things the branches of \<open>checkRoundResult\<close> do: open the premium modal, open
  the drink modal with a drink count, call \<open>showBlackoutAndProceed\<close>, call
  \<open>showBlackoutAndEnd\<close>.
\<close>

datatype outcome = PremiumSubEvent | ContinueWithBonusReveal nat | Continue | Terminate

definition resolve :: "real \<Rightarrow> classification \<Rightarrow> real \<Rightarrow> outcome" where
  "resolve continueRate c u =
     (if hasPremiumFlag c then PremiumSubEvent
      else if cherryCount c > 0 then
        (if cherryCount c \<ge> 3 then ContinueWithBonusReveal (cherryCount c)
         else if cherryCount c \<ge> 2 then
           (if u < 0.3 then ContinueWithBonusReveal (cherryCount c) else Continue)
         else Continue)
      else if hasSmallYaku c then
        (if u < 0.2 then ContinueWithBonusReveal 1 else Continue)
      else
        (if u < continueRate then Continue else Terminate))"

section \<open>The game screen (components/GameScreen)\<close>

text \<open>
  The component's state variables form a record. Two fields are added to them: the
  callbacks handed to \<open>setTimeout\<close> that have not run yet, and the argument of the call
  \<open>onGameEnd\<close>, once it has been made. A pending callback is kept as the values its text
  reads from the call that scheduled it.

  Every function below returns the state with the values it sets. A handler reads the
  state variables of the render that created it. \<open>stopReel\<close> is given that render's
  state as an argument of its own, beside the state it writes to, so that two calls made
  from one render can be told from two calls with a render between them. The other
  functions run once per event, on the state their render shows.
\<close>

datatype timer =
    TCheckRound "slot list list"
  | TNextSpin nat "slot list list"
  | TRestart
  | TEnd int

record game =
  remainingStops :: int
  continueCount :: int
  reels :: "slot list"
  isSpinning :: "bool list"
  currentSpinIndex :: nat
  showDrinkModal :: bool
  drinkCount :: nat
  showRushEffect :: bool
  rushNumber :: int
  allSpinResults :: "slot list list"
  showGameOver :: bool
  showPremiumModal :: bool
  timers :: "timer list"
  gameEnded :: "int option"

text \<open>
  The initial values of the \<open>useState\<close> calls. The counters \<open>remainingStops\<close>,
  \<open>continueCount\<close> and \<open>rushNumber\<close> are numbers that the code adds to and subtracts
  from, so they are integers here; \<open>drinkCount\<close> only ever receives a count of symbols.
\<close>

definition initialState :: game where
  "initialState =
     \<lparr> remainingStops = 9, continueCount = 0, reels = [Null, Null, Null],
       isSpinning = [False, False, False], currentSpinIndex = 0, showDrinkModal = False,
       drinkCount = 0, showRushEffect = False, rushNumber = 0, allSpinResults = [],
       showGameOver = False, showPremiumModal = False, timers = [], gameEnded = None \<rparr>"

definition startSpin :: "nat \<Rightarrow> game \<Rightarrow> game" where
  "startSpin spinIndex s =
     (if spinIndex \<ge> 3 then s
      else s\<lparr> currentSpinIndex := spinIndex,
              isSpinning := [True, True, True],
              reels := [Placeholder, Placeholder, Placeholder] \<rparr>)"

definition startNewRound :: "game \<Rightarrow> game" where
  "startNewRound s =
     startSpin 0
       (s\<lparr> allSpinResults := [], remainingStops := 9, currentSpinIndex := 0,
           reels := [Null, Null, Null], isSpinning := [False, False, False],
           showGameOver := False \<rparr>)"

text \<open>The mount effect calls \<open>startNewRound\<close> once.\<close>

definition mountState :: game where
  "mountState = startNewRound initialState"

definition showBlackoutAndProceed :: "game \<Rightarrow> game" where
  "showBlackoutAndProceed s =
     (let newCount = continueCount s + 1
      in s\<lparr> showRushEffect := True, showGameOver := False, continueCount := newCount,
              rushNumber := newCount + 1, timers := timers s @ [TRestart] \<rparr>)"

definition showBlackoutAndEnd :: "game \<Rightarrow> game" where
  "showBlackoutAndEnd s =
     s\<lparr> showRushEffect := True, showGameOver := True,
         timers := timers s @ [TEnd (continueCount s)] \<rparr>"

text \<open>
  \<open>checkRoundResult\<close>: the loop is \<open>classify\<close>, the chain of tests is \<open>resolve\<close>, and
  each outcome has the effect of its branch.
\<close>

definition checkRoundResult :: "real \<Rightarrow> slot list list \<Rightarrow> real \<Rightarrow> game \<Rightarrow> game" where
  "checkRoundResult continueRate finalSpinResults u s =
     (case resolve continueRate (classify finalSpinResults) u of
        PremiumSubEvent \<Rightarrow> s\<lparr> showPremiumModal := True \<rparr>
      | ContinueWithBonusReveal n \<Rightarrow> s\<lparr> drinkCount := n, showDrinkModal := True \<rparr>
      | Continue \<Rightarrow> showBlackoutAndProceed s
      | Terminate \<Rightarrow> showBlackoutAndEnd s)"

text \<open>
  The call \<open>generateWeightedSymbol(continueRate)\<close> of \<open>stopReel\<close>: the function declares
  no parameter, so the argument is dropped.
\<close>

definition generateWeightedSymbolCall :: "real \<Rightarrow> real \<Rightarrow> symbol" where
  "generateWeightedSymbolCall continueRate u = generateWeightedSymbol u"

text \<open>
  \<open>stopReel\<close>: \<open>c\<close> is the state of the render whose callback is called (what the body
  reads), \<open>s\<close> the state the setters write to. A read of \<open>isSpinning\<close> beyond its length
  gives \<open>undefined\<close>, which the guard takes as not spinning. Past the guard the index is
  inside \<open>isSpinning\<close>; the two arrays are three-element arrays throughout (\<open>sessionInv\<close>
  below), so the write to the copy of \<open>reels\<close> is inside it as well. The test of line 72
  looks for the game screen's own cherry literal.
\<close>

definition stopReel :: "real \<Rightarrow> nat \<Rightarrow> real \<Rightarrow> game \<Rightarrow> game \<Rightarrow> game" where
  "stopReel continueRate reelIndex u c s =
     (if \<not> (reelIndex < length (isSpinning c) \<and> isSpinning c ! reelIndex) then s
      else
        let newSymbol = generateWeightedSymbolCall continueRate u;
            newReels = (reels c)[reelIndex := Sym newSymbol];
            newSpinning = (isSpinning c)[reelIndex := False];
            s1 = s\<lparr> reels := newReels, isSpinning := newSpinning,
                     remainingStops := remainingStops c - 1 \<rparr>
        in if list_all (\<lambda>b. \<not> b) newSpinning then
             let newAllSpinResults = allSpinResults c @ [newReels];
                 s2 = s1\<lparr> allSpinResults := newAllSpinResults \<rparr>;
                 hasCherry = (screenCherry \<in> set newReels);
                 hasYaku = checkSmallYakuMatch newReels
             in if hasCherry \<or> hasYaku
                then s2\<lparr> timers := timers s2 @ [TCheckRound newAllSpinResults] \<rparr>
                else s2\<lparr> timers := timers s2 @ [TNextSpin (currentSpinIndex c) newAllSpinResults] \<rparr>
           else s1)"

text \<open>The bodies of the four delayed callbacks.\<close>

fun runTimer :: "real \<Rightarrow> timer \<Rightarrow> real \<Rightarrow> game \<Rightarrow> game" where
  "runTimer continueRate (TCheckRound r) u s = checkRoundResult continueRate r u s"
| "runTimer continueRate (TNextSpin i r) u s =
     (if i < 2 then startSpin (i + 1) s else checkRoundResult continueRate r u s)"
| "runTimer continueRate TRestart u s = startNewRound (s\<lparr> showRushEffect := False \<rparr>)"
| "runTimer continueRate (TEnd c) u s =
     s\<lparr> showRushEffect := False, showGameOver := False, gameEnded := Some c \<rparr>"

definition handleDrinkModalClose :: "game \<Rightarrow> game" where
  "handleDrinkModalClose s = showBlackoutAndProceed (s\<lparr> showDrinkModal := False \<rparr>)"

definition handlePremiumModalClose :: "game \<Rightarrow> game" where
  "handlePremiumModalClose s = showBlackoutAndProceed (s\<lparr> showPremiumModal := False \<rparr>)"

text \<open>
  The premium modal (components/PremiumModal): after its animation it draws once,
  shows one of its two options and then calls \<open>onClose\<close>, which the game screen binds to
  \<open>handlePremiumModalClose\<close>.
\<close>

datatype premiumOption = Everyone | Self

definition premiumSelect :: "real \<Rightarrow> premiumOption" where
  "premiumSelect u = (if u < 0.5 then Everyone else Self)"

definition premiumModal :: "real \<Rightarrow> game \<Rightarrow> premiumOption \<times> game" where
  "premiumModal u s = (premiumSelect u, handlePremiumModalClose s)"

section \<open>Events and runs\<close>

text \<open>
  What can happen to a mounted game screen: a stop button (or the space key) calls
  \<open>stopReel\<close>, a pending callback runs, the drink modal's button is pressed, the premium
  modal finishes. The component is rendered after each of them, so the stop of an event
  is the callback of the current state. The modals exist only while their flag is set.
  Once \<open>onGameEnd\<close> has been called the parent shows the result screen and the game
  screen is gone.
\<close>

datatype event =
    StopReel nat real
  | Timeout nat real
  | DrinkClose
  | PremiumDone real

definition fireTimer :: "real \<Rightarrow> nat \<Rightarrow> real \<Rightarrow> game \<Rightarrow> game" where
  "fireTimer continueRate n u s =
     (if n < length (timers s)
      then runTimer continueRate (timers s ! n) u
             (s\<lparr> timers := take n (timers s) @ drop (Suc n) (timers s) \<rparr>)
      else s)"

fun handle :: "real \<Rightarrow> event \<Rightarrow> game \<Rightarrow> game" where
  "handle continueRate (StopReel i u) s = stopReel continueRate i u s s"
| "handle continueRate (Timeout n u) s = fireTimer continueRate n u s"
| "handle continueRate DrinkClose s = (if showDrinkModal s then handleDrinkModalClose s else s)"
| "handle continueRate (PremiumDone u) s =
     (if showPremiumModal s then snd (premiumModal u s) else s)"

definition step :: "real \<Rightarrow> event \<Rightarrow> game \<Rightarrow> game" where
  "step continueRate e s = (if gameEnded s \<noteq> None then s else handle continueRate e s)"

fun run :: "real \<Rightarrow> event list \<Rightarrow> game \<Rightarrow> game" where
  "run continueRate [] s = s"
| "run continueRate (e # es) s = run continueRate es (step continueRate e s)"

text \<open>The states a session can be in.\<close>

inductive reachable :: "real \<Rightarrow> game \<Rightarrow> bool" for continueRate :: real where
  mount: "reachable continueRate mountState"
| step: "reachable continueRate s \<Longrightarrow> reachable continueRate (step continueRate e s)"

section \<open>Notions used to state the properties\<close>

text \<open>
  A spin is a hit when it makes \<open>stopReel\<close> end the round: the two tests of lines 72
  and 73. No reel is spinning when \<open>every\<close> finds no set flag.
\<close>

definition hit :: "slot list \<Rightarrow> bool" where
  "hit newReels = (screenCherry \<in> set newReels \<or> checkSmallYakuMatch newReels)"

definition settled :: "game \<Rightarrow> bool" where
  "settled s = list_all (\<lambda>b. \<not> b) (isSpinning s)"

definition modalOpen :: "game \<Rightarrow> bool" where
  "modalOpen s = (showDrinkModal s \<or> showPremiumModal s)"

text \<open>A recorded spin is resolved when it is three symbols.\<close>

definition resolvedSpin :: "slot list \<Rightarrow> bool" where
  "resolvedSpin spin = (length spin = 3 \<and> list_all isSymbol spin)"

text \<open>The state right after \<open>startNewRound\<close>: nothing recorded, three reels spinning.\<close>

definition freshRound :: "game \<Rightarrow> bool" where
  "freshRound s =
     (allSpinResults s = [] \<and> isSpinning s = [True, True, True]
      \<and> reels s = [Placeholder, Placeholder, Placeholder]
      \<and> currentSpinIndex s = 0 \<and> remainingStops s = 9)"

text \<open>
  The round is over once \<open>checkRoundResult\<close> has run: no reel spins, and what is pending,
  if anything, is the restart or the end of the game.
\<close>

definition roundOver :: "game \<Rightarrow> bool" where
  "roundOver s =
     (settled s \<and> (timers s = [] \<or> timers s = [TRestart] \<or> timers s = [TEnd (continueCount s)]))"

text \<open>
  The record an event hands to \<open>checkRoundResult\<close>, if it calls it (the round completes),
  and whether an event calls \<open>startNewRound\<close>.
\<close>

fun invokesCheck :: "event \<Rightarrow> game \<Rightarrow> slot list list option" where
  "invokesCheck (Timeout n u) s =
     (if gameEnded s = None \<and> n < length (timers s)
      then (case timers s ! n of
              TCheckRound r \<Rightarrow> Some r
            | TNextSpin i r \<Rightarrow> (if i < 2 then None else Some r)
            | TRestart \<Rightarrow> None
            | TEnd c \<Rightarrow> None)
      else None)"
| "invokesCheck (StopReel i u) s = None"
| "invokesCheck DrinkClose s = None"
| "invokesCheck (PremiumDone u) s = None"

fun startsRound :: "event \<Rightarrow> game \<Rightarrow> bool" where
  "startsRound (Timeout n u) s =
     (gameEnded s = None \<and> n < length (timers s) \<and> timers s ! n = TRestart)"
| "startsRound (StopReel i u) s = False"
| "startsRound DrinkClose s = False"
| "startsRound (PremiumDone u) s = False"

text \<open>
  The completions of the round a run begins in: the records handed to
  \<open>checkRoundResult\<close>, in order, by the events before the first one that starts a new
  round.
\<close>

fun roundChecks :: "real \<Rightarrow> event list \<Rightarrow> game \<Rightarrow> slot list list list" where
  "roundChecks continueRate [] s = []"
| "roundChecks continueRate (e # es) s =
     (if startsRound e s then []
      else (case invokesCheck e s of Some r \<Rightarrow> [r] | None \<Rightarrow> [])
           @ roundChecks continueRate es (step continueRate e s))"

text \<open>
  A player who stops the three reels from left to right and waits for the delayed
  callback, once per spin: the events of one spin, given its four draws, and of a list of
  spins.
\<close>

definition spinEvents :: "real \<times> real \<times> real \<times> real \<Rightarrow> event list" where
  "spinEvents d =
     (case d of (a, b, c, w) \<Rightarrow> [StopReel 0 a, StopReel 1 b, StopReel 2 c, Timeout 0 w])"

definition playEvents :: "(real \<times> real \<times> real \<times> real) list \<Rightarrow> event list" where
  "playEvents ds = concat (map spinEvents ds)"

text \<open>
  The classifier in the words of the specification (section 4.3): the cherry count is the
  number of cherry symbols over every reel of every recorded spin, the small yaku flag and
  the premium flag hold when some recorded spin has them.
\<close>

definition specClassify :: "slot list list \<Rightarrow> classification" where
  "specClassify roundRecord =
     \<lparr> cherryCount = sum_list (map (\<lambda>spin. length (filter (\<lambda>s. s = Sym Cherry) spin)) roundRecord),
       hasSmallYaku = list_ex checkSmallYakuMatch roundRecord,
       hasPremiumFlag = list_ex isPremiumFlag roundRecord \<rparr>"

text \<open>
  The early-exit decision in the words of the specification (section 4.2): the
  classifier is evaluated on the whole accumulated record, and the round ends early when
  it counts a cherry or finds a small yaku. \<open>stopReelSpec\<close> is \<open>stopReel\<close> with that
  decision in place of the two tests on the latest spin.
\<close>

definition earlyExitFull :: "slot list list \<Rightarrow> bool" where
  "earlyExitFull roundRecord =
     (cherryCount (specClassify roundRecord) > 0 \<or> hasSmallYaku (specClassify roundRecord))"

definition stopReelSpec :: "real \<Rightarrow> nat \<Rightarrow> real \<Rightarrow> game \<Rightarrow> game \<Rightarrow> game" where
  "stopReelSpec continueRate reelIndex u c s =
     (if \<not> (reelIndex < length (isSpinning c) \<and> isSpinning c ! reelIndex) then s
      else
        let newSymbol = generateWeightedSymbolCall continueRate u;
            newReels = (reels c)[reelIndex := Sym newSymbol];
            newSpinning = (isSpinning c)[reelIndex := False];
            s1 = s\<lparr> reels := newReels, isSpinning := newSpinning,
                     remainingStops := remainingStops c - 1 \<rparr>
        in if list_all (\<lambda>b. \<not> b) newSpinning then
             let newAllSpinResults = allSpinResults c @ [newReels];
                 s2 = s1\<lparr> allSpinResults := newAllSpinResults \<rparr>
             in if earlyExitFull newAllSpinResults
                then s2\<lparr> timers := timers s2 @ [TCheckRound newAllSpinResults] \<rparr>
                else s2\<lparr> timers := timers s2 @ [TNextSpin (currentSpinIndex c) newAllSpinResults] \<rparr>
           else s1)"

text \<open>
  The invariant of the session. While a reel spins nothing is pending, no modal is open,
  the record holds one spin for each spin index passed and none of them is a hit. Once
  the three reels are stopped there is at most one pending callback, and it is the one
  \<open>stopReel\<close>, \<open>checkRoundResult\<close> or a modal's close handler has just scheduled.
\<close>

definition sessionInv :: "game \<Rightarrow> bool" where
  "sessionInv s =
     (length (reels s) = 3 \<and> length (isSpinning s) = 3 \<and> 0 \<le> continueCount s
      \<and> list_all (\<lambda>spin. \<not> hit spin) (butlast (allSpinResults s))
      \<and> (case gameEnded s of None \<Rightarrow> True | Some c \<Rightarrow> c = continueCount s)
      \<and> (if settled s then
            (timers s = [] \<and> \<not> (showDrinkModal s \<and> showPremiumModal s))
          \<or> (\<not> modalOpen s \<and> gameEnded s = None
              \<and> timers s = [TCheckRound (allSpinResults s)]
              \<and> length (allSpinResults s) = currentSpinIndex s + 1 \<and> currentSpinIndex s < 3
              \<and> hit (last (allSpinResults s)))
          \<or> (\<not> modalOpen s \<and> gameEnded s = None
              \<and> timers s = [TNextSpin (currentSpinIndex s) (allSpinResults s)]
              \<and> length (allSpinResults s) = currentSpinIndex s + 1 \<and> currentSpinIndex s < 3
              \<and> \<not> hit (last (allSpinResults s)))
          \<or> (\<not> modalOpen s \<and> timers s = [TRestart])
          \<or> (\<not> modalOpen s \<and> timers s = [TEnd (continueCount s)])
          else
            timers s = [] \<and> \<not> modalOpen s \<and> gameEnded s = None
            \<and> length (allSpinResults s) = currentSpinIndex s \<and> currentSpinIndex s < 3
            \<and> list_all (\<lambda>spin. \<not> hit spin) (allSpinResults s)
            \<and> list_all (\<lambda>i. isSpinning s ! i \<or> isSymbol (reels s ! i)) [0, 1, 2]))"

text \<open>The running cumulative weight after entry \<open>k\<close> of a table.\<close>

definition cumulative :: "(symbol \<times> real) list \<Rightarrow> nat \<Rightarrow> real" where
  "cumulative table k = sum_list (map snd (take (Suc k) table))"

section \<open>Slots\<close>

lemma Sym_eq_iff [simp]: "Sym a = Sym b \<longleftrightarrow> a = b"
  by (cases a; cases b) (simp_all add: Sym_def)

lemma Sym_distinct [simp]:
  "Sym a \<noteq> Null" "Null \<noteq> Sym a" "Sym a \<noteq> Placeholder" "Placeholder \<noteq> Sym a"
  "Sym a \<noteq> screenCherry" "screenCherry \<noteq> Sym a"
  by (cases a; simp add: Sym_def Placeholder_def screenCherry_def)+

lemma literal_distinct [simp]:
  "Placeholder \<noteq> Null" "Null \<noteq> Placeholder" "screenCherry \<noteq> Null" "Null \<noteq> screenCherry"
  "Placeholder \<noteq> screenCherry" "screenCherry \<noteq> Placeholder"
  by (simp_all add: Placeholder_def screenCherry_def)

lemma isSymbol_iff: "isSymbol x \<longleftrightarrow> (\<exists>a. x = Sym a)"
proof
  assume "isSymbol x"
  then show "\<exists>a. x = Sym a" by (auto simp: isSymbol_def)
next
  assume "\<exists>a. x = Sym a"
  then obtain a where "x = Sym a" by blast
  then show "isSymbol x" by (cases a) (simp_all add: isSymbol_def SYMBOLS_def)
qed

lemma isSymbol_simps [simp]:
  "isSymbol (Sym a)" "\<not> isSymbol Null" "\<not> isSymbol Placeholder" "\<not> isSymbol screenCherry"
  by (auto simp: isSymbol_iff)

section \<open>Properties of the generator\<close>

lemma totalWeight_value: "totalWeight = 100.5"
  by (simp add: totalWeight_def BASE_SYMBOL_WEIGHTS_def)

lemma cumulative_Cons_0: "cumulative ((s, w) # rest) 0 = w"
  by (simp add: cumulative_def)

lemma cumulative_Cons_Suc: "cumulative ((s, w) # rest) (Suc k) = w + cumulative rest k"
  by (simp add: cumulative_def)

lemma weightedLoop_Some:
  "weightedLoop r table = Some s \<Longrightarrow>
     \<exists>k < length table. s = fst (table ! k) \<and> r - cumulative table k \<le> 0
        \<and> (\<forall>j < k. 0 < r - cumulative table j)"
proof (induction table arbitrary: r)
  case Nil
  then show ?case by simp
next
  case (Cons p rest)
  obtain s0 w where p: "p = (s0, w)" by (cases p)
  show ?case
  proof (cases "r - w \<le> 0")
    case True
    with Cons.prems p have "s = s0" by simp
    with True p have "s = fst ((p # rest) ! 0) \<and> r - cumulative (p # rest) 0 \<le> 0
        \<and> (\<forall>j < 0. 0 < r - cumulative (p # rest) j)"
      by (simp add: cumulative_Cons_0)
    then show ?thesis by blast
  next
    case False
    with Cons.prems p have "weightedLoop (r - w) rest = Some s" by simp
    from Cons.IH [OF this] obtain k where k: "k < length rest" "s = fst (rest ! k)"
      "r - w - cumulative rest k \<le> 0" "\<forall>j < k. 0 < r - w - cumulative rest j"
      by blast
    have "\<forall>j < Suc k. 0 < r - cumulative (p # rest) j"
    proof (intro allI impI)
      fix j assume "j < Suc k"
      then show "0 < r - cumulative (p # rest) j"
        using False k(4) p by (cases j) (auto simp: cumulative_Cons_0 cumulative_Cons_Suc)
    qed
    moreover from k p have "Suc k < length (p # rest)" "s = fst ((p # rest) ! Suc k)"
      "r - cumulative (p # rest) (Suc k) \<le> 0"
      by (auto simp: cumulative_Cons_Suc)
    ultimately show ?thesis by blast
  qed
qed

lemma weightedLoop_None:
  "weightedLoop r table = None \<Longrightarrow> table = [] \<or> sum_list (map snd table) < r"
proof (induction table arbitrary: r)
  case Nil
  then show ?case by simp
next
  case (Cons p rest)
  obtain s0 w where p: "p = (s0, w)" by (cases p)
  from Cons.prems p have nle: "\<not> r - w \<le> 0" and rest: "weightedLoop (r - w) rest = None"
    by (auto simp: Let_def split: if_splits)
  from Cons.IH [OF rest] nle p show ?case by auto
qed

lemma weightedLoop_in_table:
  "weightedLoop r table = Some s \<Longrightarrow> s \<in> fst ` set table"
proof (induction table arbitrary: r)
  case Nil
  then show ?case by simp
next
  case (Cons p rest)
  obtain s0 w where p: "p = (s0, w)" by (cases p)
  show ?case
  proof (cases "r - w \<le> 0")
    case True
    with Cons.prems p show ?thesis by simp
  next
    case False
    with Cons.prems p have "weightedLoop (r - w) rest = Some s" by simp
    from Cons.IH [OF this] show ?thesis by simp
  qed
qed

lemma table_symbols: "fst ` set BASE_SYMBOL_WEIGHTS = set SYMBOLS"
  by (simp add: BASE_SYMBOL_WEIGHTS_def SYMBOLS_def)

lemma sum_table: "sum_list (map snd BASE_SYMBOL_WEIGHTS) = totalWeight"
  by (simp add: totalWeight_def BASE_SYMBOL_WEIGHTS_def)

text \<open>
  Claim C6. For a draw \<open>r = u * totalWeight\<close> in the interval from 0 to \<open>totalWeight\<close>
  (excluded) the generator returns the symbol of the first table entry at which \<open>r\<close> minus
  the cumulative weight is at most 0, every earlier remainder being positive. For every
  draw whatsoever the result is one of the six symbols of \<open>SYMBOLS\<close>, and when the loop
  runs through the table without returning, it is the fallback symbol.
\<close>

theorem generateWeightedSymbol_selects:
  assumes r: "r = u * totalWeight"
  shows "(0 \<le> r \<and> r < totalWeight \<longrightarrow>
           (\<exists>k < length BASE_SYMBOL_WEIGHTS.
              generateWeightedSymbol u = fst (BASE_SYMBOL_WEIGHTS ! k)
              \<and> r - cumulative BASE_SYMBOL_WEIGHTS k \<le> 0
              \<and> (\<forall>j < k. 0 < r - cumulative BASE_SYMBOL_WEIGHTS j)))
         \<and> generateWeightedSymbol u \<in> set SYMBOLS
         \<and> (weightedLoop r BASE_SYMBOL_WEIGHTS = None \<longrightarrow> generateWeightedSymbol u = Lemon)"
proof (intro conjI impI)
  assume range: "0 \<le> r \<and> r < totalWeight"
  have "weightedLoop r BASE_SYMBOL_WEIGHTS \<noteq> None"
  proof
    assume "weightedLoop r BASE_SYMBOL_WEIGHTS = None"
    from weightedLoop_None [OF this]
    have "BASE_SYMBOL_WEIGHTS = [] \<or> totalWeight < r" by (simp only: sum_table)
    moreover have "BASE_SYMBOL_WEIGHTS \<noteq> []" by (simp add: BASE_SYMBOL_WEIGHTS_def)
    ultimately show False using range by simp
  qed
  then obtain s where s: "weightedLoop r BASE_SYMBOL_WEIGHTS = Some s" by blast
  then have "generateWeightedSymbol u = s" by (simp add: generateWeightedSymbol_def r)
  with weightedLoop_Some [OF s] show "\<exists>k < length BASE_SYMBOL_WEIGHTS.
              generateWeightedSymbol u = fst (BASE_SYMBOL_WEIGHTS ! k)
              \<and> r - cumulative BASE_SYMBOL_WEIGHTS k \<le> 0
              \<and> (\<forall>j < k. 0 < r - cumulative BASE_SYMBOL_WEIGHTS j)"
    by simp
next
  show "generateWeightedSymbol u \<in> set SYMBOLS"
  proof (cases "weightedLoop r BASE_SYMBOL_WEIGHTS")
    case None
    then show ?thesis by (simp add: generateWeightedSymbol_def r SYMBOLS_def)
  next
    case (Some s)
    from weightedLoop_in_table [OF Some] have "s \<in> set SYMBOLS" by (simp add: table_symbols)
    with Some show ?thesis by (simp add: generateWeightedSymbol_def r)
  qed
next
  assume "weightedLoop r BASE_SYMBOL_WEIGHTS = None"
  then show "generateWeightedSymbol u = Lemon" by (simp add: generateWeightedSymbol_def r)
qed

theorem generateWeightedSymbol_selects_witness:
  "generateWeightedSymbol 0.5 = fst (BASE_SYMBOL_WEIGHTS ! 3)
   \<and> generateWeightedSymbol 0.5 = Diamond
   \<and> generateWeightedSymbol 2 = Lemon
   \<and> generateWeightedSymbol 2 \<in> set SYMBOLS"
proof -
  have r: "(50.25::real) = 0.5 * totalWeight" and r2: "(201::real) = 2 * totalWeight"
    by (simp_all add: totalWeight_value)
  have none: "weightedLoop 201 BASE_SYMBOL_WEIGHTS = None"
    by (simp add: BASE_SYMBOL_WEIGHTS_def)
  have d: "generateWeightedSymbol 0.5 = Diamond"
    by (simp add: generateWeightedSymbol_def totalWeight_def BASE_SYMBOL_WEIGHTS_def)
  from generateWeightedSymbol_selects [OF r2] none
  have "generateWeightedSymbol 2 = Lemon \<and> generateWeightedSymbol 2 \<in> set SYMBOLS"
    by blast
  moreover from generateWeightedSymbol_selects [OF r]
  have "generateWeightedSymbol 0.5 \<in> set SYMBOLS" by blast
  ultimately show ?thesis using d by (auto simp: BASE_SYMBOL_WEIGHTS_def)
qed

section \<open>Properties of the classifier and the resolver\<close>

lemma three_list: "length xs = 3 \<longleftrightarrow> (\<exists>a b c. xs = [a, b, c])"
  by (cases xs; cases "tl xs"; cases "tl (tl xs)"; cases "tl (tl (tl xs))") auto

lemma checkSmallYakuMatch_Sym:
  "checkSmallYakuMatch (map Sym spin) \<longleftrightarrow> (\<exists>x. spin = [x, x, x] \<and> x \<noteq> Cherry \<and> x \<noteq> Star)"
proof (cases "length spin = 3")
  case True
  then obtain a b c where "spin = [a, b, c]" by (auto simp: three_list)
  then show ?thesis by auto
next
  case False
  then show ?thesis by auto
qed

lemma isPremiumFlag_Sym: "isPremiumFlag (map Sym spin) \<longleftrightarrow> spin = [Star, Star, Star]"
proof (cases "length spin = 3")
  case True
  then obtain a b c where "spin = [a, b, c]" by (auto simp: three_list)
  then show ?thesis by (auto simp: isPremiumFlag_def)
next
  case False
  then show ?thesis by (auto simp: isPremiumFlag_def)
qed

lemma screenCherry_filter_Sym: "filter (\<lambda>s. s = screenCherry) (map Sym spin) = []"
  by (induction spin) auto

lemma cherries_Sym: "length (filter (\<lambda>s. s = Sym Cherry) (map Sym spin)) = count_list spin Cherry"
  by (induction spin) auto

lemma cherries_Sym_comp:
  "length (filter ((\<lambda>s. s = Sym Cherry) \<circ> Sym) spin) = count_list spin Cherry"
  by (induction spin) auto

lemma classifyStep_Sym:
  "classifyStep c (map Sym spin) =
     \<lparr> cherryCount = cherryCount c,
       hasSmallYaku = (hasSmallYaku c \<or> (\<exists>x. spin = [x, x, x] \<and> x \<noteq> Cherry \<and> x \<noteq> Star)),
       hasPremiumFlag = (hasPremiumFlag c \<or> spin = [Star, Star, Star]) \<rparr>"
  unfolding classifyStep_def screenCherry_filter_Sym checkSmallYakuMatch_Sym isPremiumFlag_Sym
  by auto

lemma foldl_classifyStep:
  "foldl classifyStep c (map (map Sym) rr) =
     \<lparr> cherryCount = cherryCount c,
       hasSmallYaku = (hasSmallYaku c \<or> (\<exists>spin \<in> set rr. \<exists>x. spin = [x, x, x] \<and> x \<noteq> Cherry \<and> x \<noteq> Star)),
       hasPremiumFlag = (hasPremiumFlag c \<or> (\<exists>spin \<in> set rr. spin = [Star, Star, Star])) \<rparr>"
proof (induction rr arbitrary: c)
  case Nil
  then show ?case by simp
next
  case (Cons spin rr)
  have "foldl classifyStep c (map (map Sym) (spin # rr)) =
          foldl classifyStep (classifyStep c (map Sym spin)) (map (map Sym) rr)"
    by simp
  then show ?case
    by (simp only: Cons.IH classifyStep_Sym) auto
qed

text \<open>
  What the loop of \<open>checkRoundResult\<close> computes on a record of symbols: the two flags are
  as specified, the cherry count is 0 whatever the record holds.
\<close>

lemma classify_on_symbols:
  "classify (map (map Sym) rr) =
     \<lparr> cherryCount = 0,
       hasSmallYaku = (\<exists>spin \<in> set rr. \<exists>x. spin = [x, x, x] \<and> x \<noteq> Cherry \<and> x \<noteq> Star),
       hasPremiumFlag = (\<exists>spin \<in> set rr. spin = [Star, Star, Star]) \<rparr>"
  by (simp add: classify_def foldl_classifyStep)

text \<open>The specified classifier on a record of symbols, and the count of \<open>countCherries\<close>.\<close>

lemma specClassify_on_symbols:
  "specClassify (map (map Sym) rr) =
     \<lparr> cherryCount = sum_list (map (\<lambda>spin. count_list spin Cherry) rr),
       hasSmallYaku = (\<exists>spin \<in> set rr. \<exists>x. spin = [x, x, x] \<and> x \<noteq> Cherry \<and> x \<noteq> Star),
       hasPremiumFlag = (\<exists>spin \<in> set rr. spin = [Star, Star, Star]) \<rparr>"
proof -
  have a: "map (\<lambda>spin. length (filter (\<lambda>s. s = Sym Cherry) spin)) (map (map Sym) rr)
      = map (\<lambda>spin. count_list spin Cherry) rr"
    by (simp add: cherries_Sym_comp)
  have b: "list_ex checkSmallYakuMatch (map (map Sym) rr)
      \<longleftrightarrow> (\<exists>spin \<in> set rr. \<exists>x. spin = [x, x, x] \<and> x \<noteq> Cherry \<and> x \<noteq> Star)"
    by (induction rr) (auto simp: checkSmallYakuMatch_Sym simp del: checkSmallYakuMatch.simps)
  have c: "list_ex isPremiumFlag (map (map Sym) rr) \<longleftrightarrow> (\<exists>spin \<in> set rr. spin = [Star, Star, Star])"
    by (induction rr) (auto simp: isPremiumFlag_Sym)
  show ?thesis unfolding specClassify_def a b c ..
qed

lemma countCherries_sum:
  "countCherries r = sum_list (map (\<lambda>spin. length (filter (\<lambda>s. s = Sym Cherry) spin)) r)"
  by (induction r) simp_all

lemma specCherryCount_countCherries: "cherryCount (specClassify r) = countCherries r"
  by (simp add: specClassify_def countCherries_sum)

text \<open>
  Claim C3. On the record of one spin showing cherry, grape, bell the loop of
  \<open>checkRoundResult\<close> returns the cherry count 0, where the claim, the specified
  classifier and \<open>countCherries\<close> of utils/gameLogic count 1: line 103 compares each reel
  with a string that is none of the six symbols. The two flags are computed as claimed
  (\<open>classify_on_symbols\<close>). With the count 0 the resolver can end the session on this
  record.
\<close>

theorem classify_misses_cherries:
  "classify [[Sym Cherry, Sym Grape, Sym Bell]]
     = \<lparr> cherryCount = 0, hasSmallYaku = False, hasPremiumFlag = False \<rparr>
   \<and> specClassify [[Sym Cherry, Sym Grape, Sym Bell]]
     = \<lparr> cherryCount = 1, hasSmallYaku = False, hasPremiumFlag = False \<rparr>
   \<and> countCherries [[Sym Cherry, Sym Grape, Sym Bell]] = 1
   \<and> resolve 0.29 (classify [[Sym Cherry, Sym Grape, Sym Bell]]) 0.99 = Terminate"
proof -
  have a: "classify (map (map Sym) [[Cherry, Grape, Bell]])
     = \<lparr> cherryCount = 0, hasSmallYaku = False, hasPremiumFlag = False \<rparr>"
    unfolding classify_on_symbols by simp
  have b: "specClassify (map (map Sym) [[Cherry, Grape, Bell]])
     = \<lparr> cherryCount = 1, hasSmallYaku = False, hasPremiumFlag = False \<rparr>"
    unfolding specClassify_on_symbols by simp
  have c: "countCherries [[Sym Cherry, Sym Grape, Sym Bell]] = 1"
    using b by (simp add: specCherryCount_countCherries [symmetric])
  have d: "resolve 0.29 \<lparr> cherryCount = 0, hasSmallYaku = False, hasPremiumFlag = False \<rparr> 0.99
      = Terminate"
    by (simp add: resolve_def)
  from a b c d show ?thesis by simp
qed

text \<open>
  Claim C1. The resolver decides by the first match in the order: premium flag; three
  or more cherries; exactly two cherries (bonus reveal iff the draw is below 0.3);
  exactly one cherry; small yaku (bonus reveal iff the draw is below 0.2); otherwise
  continue iff the draw is below the continue rate, and terminate if not. It terminates
  only on a classification with no cherry, no small yaku and no premium flag.
\<close>

theorem resolve_priority:
  "resolve continueRate \<lparr> cherryCount = n, hasSmallYaku = y, hasPremiumFlag = p \<rparr> u =
     (if p then PremiumSubEvent
      else if n \<ge> 3 then ContinueWithBonusReveal n
      else if n = 2 then (if u < 0.3 then ContinueWithBonusReveal n else Continue)
      else if n = 1 then Continue
      else if y then (if u < 0.2 then ContinueWithBonusReveal 1 else Continue)
      else if u < continueRate then Continue else Terminate)
   \<and> (resolve continueRate \<lparr> cherryCount = n, hasSmallYaku = y, hasPremiumFlag = p \<rparr> u = Terminate
        \<longrightarrow> n = 0 \<and> \<not> y \<and> \<not> p)"
  by (auto simp: resolve_def)

theorem resolve_priority_witness:
  "resolve 0.5 \<lparr> cherryCount = 0, hasSmallYaku = False, hasPremiumFlag = False \<rparr> 0.7 = Terminate
   \<and> resolve 0.5 \<lparr> cherryCount = 2, hasSmallYaku = False, hasPremiumFlag = False \<rparr> 0.1
       = ContinueWithBonusReveal 2"
  using resolve_priority [of "0.5" 0 False False "0.7"]
        resolve_priority [of "0.5" 2 False False "0.1"]
  by simp

text \<open>
  Claim C10. For every draw in the interval from 0 to 1 (excluded) \<open>checkPremiumFlag\<close>
  is true, so a caller that forces the premium symbol set when it holds does so on every
  evaluation.
\<close>

theorem checkPremiumFlag_always:
  "0 \<le> u \<Longrightarrow> u < 1 \<Longrightarrow>
     checkPremiumFlag u \<and> (if checkPremiumFlag u then Some generatePremiumFlag else None) = Some [Star, Star, Star]"
  by (simp add: checkPremiumFlag_def generatePremiumFlag_def)

theorem checkPremiumFlag_always_witness:
  "checkPremiumFlag 0.999 \<and> checkPremiumFlag 0"
proof -
  have a: "(0::real) \<le> 0.999" and b: "(0.999::real) < 1" by simp_all
  have c: "(0::real) \<le> 0" and d: "(0::real) < 1" by simp_all
  from checkPremiumFlag_always [OF a b] checkPremiumFlag_always [OF c d]
  show ?thesis by simp
qed

section \<open>Properties of stopReel\<close>

lemma stopReel_invalid:
  "\<not> (i < length (isSpinning c) \<and> isSpinning c ! i) \<Longrightarrow> stopReel rate i u c s = s"
  by (simp add: stopReel_def)

lemma isSpinning_stopReel:
  "i < length (isSpinning c) \<Longrightarrow> isSpinning c ! i \<Longrightarrow>
     isSpinning (stopReel rate i u c s) = (isSpinning c)[i := False]"
  by (simp add: stopReel_def Let_def)

lemma reels_stopReel:
  "i < length (isSpinning c) \<Longrightarrow> isSpinning c ! i \<Longrightarrow>
     reels (stopReel rate i u c s) = (reels c)[i := Sym (generateWeightedSymbol u)]"
  by (simp add: stopReel_def Let_def generateWeightedSymbolCall_def)

lemma mount_value: "mountState = initialState\<lparr> isSpinning := [True, True, True], reels := [Placeholder, Placeholder, Placeholder] \<rparr>"
  by (simp add: mountState_def startNewRound_def startSpin_def initialState_def)

lemma g0: "generateWeightedSymbol 0 = Cherry"
  by (simp add: generateWeightedSymbol_def totalWeight_def BASE_SYMBOL_WEIGHTS_def)

text \<open>The state of a session after its first two stops drew 0 and 0.3.\<close>

lemma cherry_grape_state:
  "step 0.9 (StopReel 1 0.3) (step 0.9 (StopReel 0 0) mountState)
     = initialState\<lparr> reels := [Sym Cherry, Sym Grape, Placeholder],
         isSpinning := [False, False, True], remainingStops := 7 \<rparr>"
proof -
  have grape: "generateWeightedSymbol (3 / 10) = Grape"
    by (simp add: generateWeightedSymbol_def totalWeight_def BASE_SYMBOL_WEIGHTS_def)
  show ?thesis
    by (simp add: step_def stopReel_def Let_def mount_value initialState_def
        generateWeightedSymbolCall_def g0 grape)
qed

text \<open>
  What holds of the guard of line 51: a call whose render shows the reel as not spinning
  (it is stopped, or no reel spins) sets nothing, and once the state of a stop has been
  rendered a further call for the same reel sets nothing either.
\<close>

lemma stopReel_noop_after_render:
  "(\<not> (reelIndex < length (isSpinning c) \<and> isSpinning c ! reelIndex)
      \<longrightarrow> stopReel continueRate reelIndex u c s = s)
   \<and> (settled c \<longrightarrow> stopReel continueRate reelIndex u c s = s)
   \<and> stopReel continueRate reelIndex u' (stopReel continueRate reelIndex u s s)
        (stopReel continueRate reelIndex u s s)
       = stopReel continueRate reelIndex u s s"
proof (intro conjI impI)
  assume "\<not> (reelIndex < length (isSpinning c) \<and> isSpinning c ! reelIndex)"
  then show "stopReel continueRate reelIndex u c s = s" by (rule stopReel_invalid)
next
  assume "settled c"
  then have "\<not> (reelIndex < length (isSpinning c) \<and> isSpinning c ! reelIndex)"
    by (auto simp: settled_def list_all_length)
  then show "stopReel continueRate reelIndex u c s = s" by (rule stopReel_invalid)
next
  show "stopReel continueRate reelIndex u' (stopReel continueRate reelIndex u s s)
        (stopReel continueRate reelIndex u s s)
       = stopReel continueRate reelIndex u s s"
  proof (cases "reelIndex < length (isSpinning s) \<and> isSpinning s ! reelIndex")
    case True
    then have "isSpinning (stopReel continueRate reelIndex u s s) = (isSpinning s)[reelIndex := False]"
      by (simp add: isSpinning_stopReel)
    with True have "\<not> (reelIndex < length (isSpinning (stopReel continueRate reelIndex u s s))
        \<and> isSpinning (stopReel continueRate reelIndex u s s) ! reelIndex)"
      by simp
    then show ?thesis by (rule stopReel_invalid)
  next
    case False
    then show ?thesis by (simp add: stopReel_invalid)
  qed
qed

text \<open>
  Claim C5. Two calls of \<open>stopReel\<close> for reel 0 made from the callback of one render (the
  mounted state, with no render between them): the second call still reads the reel as
  spinning, draws again and replaces the cherry of the first call by a diamond, so it is
  not the no-op the claim states. Made the same way for the last spinning reel, in the
  state after two stops, the two calls leave two pending callbacks for one spin and the
  record holds the second call's symbols.
\<close>

theorem stopReel_twice_in_one_render:
  "reels (stopReel 0.9 0 0 mountState mountState) = [Sym Cherry, Placeholder, Placeholder]
   \<and> reels (stopReel 0.9 0 0.5 mountState (stopReel 0.9 0 0 mountState mountState))
       = [Sym Diamond, Placeholder, Placeholder]
   \<and> stopReel 0.9 0 0.5 mountState (stopReel 0.9 0 0 mountState mountState)
       \<noteq> stopReel 0.9 0 0 mountState mountState
   \<and> timers (stopReel 0.9 2 0.5
         (step 0.9 (StopReel 1 0.3) (step 0.9 (StopReel 0 0) mountState))
         (stopReel 0.9 2 0.8
            (step 0.9 (StopReel 1 0.3) (step 0.9 (StopReel 0 0) mountState))
            (step 0.9 (StopReel 1 0.3) (step 0.9 (StopReel 0 0) mountState))))
       = [TNextSpin 0 [[Sym Cherry, Sym Grape, Sym Bell]],
          TNextSpin 0 [[Sym Cherry, Sym Grape, Sym Diamond]]]
   \<and> allSpinResults (stopReel 0.9 2 0.5
         (step 0.9 (StopReel 1 0.3) (step 0.9 (StopReel 0 0) mountState))
         (stopReel 0.9 2 0.8
            (step 0.9 (StopReel 1 0.3) (step 0.9 (StopReel 0 0) mountState))
            (step 0.9 (StopReel 1 0.3) (step 0.9 (StopReel 0 0) mountState))))
       = [[Sym Cherry, Sym Grape, Sym Diamond]]"
proof -
  have d: "generateWeightedSymbol (1 / 2) = Diamond"
    and bell: "generateWeightedSymbol (4 / 5) = Bell"
    by (simp_all add: generateWeightedSymbol_def totalWeight_def BASE_SYMBOL_WEIGHTS_def)
  have v: "0 < length (isSpinning mountState)" "isSpinning mountState ! 0"
    by (simp_all add: mount_value initialState_def)
  have a: "reels (stopReel 0.9 0 0 mountState mountState) = [Sym Cherry, Placeholder, Placeholder]"
    by (simp add: reels_stopReel [OF v] g0) (simp add: mount_value initialState_def)
  have b: "reels (stopReel 0.9 0 0.5 mountState (stopReel 0.9 0 0 mountState mountState))
       = [Sym Diamond, Placeholder, Placeholder]"
    by (simp add: reels_stopReel [OF v] d) (simp add: mount_value initialState_def)
  have c: "stopReel 0.9 0 0.5 mountState (stopReel 0.9 0 0 mountState mountState)
       \<noteq> stopReel 0.9 0 0 mountState mountState"
  proof
    assume "stopReel 0.9 0 0.5 mountState (stopReel 0.9 0 0 mountState mountState)
       = stopReel 0.9 0 0 mountState mountState"
    then have "reels (stopReel 0.9 0 0.5 mountState (stopReel 0.9 0 0 mountState mountState))
       = reels (stopReel 0.9 0 0 mountState mountState)"
      by (rule arg_cong)
    then show False unfolding a b by simp
  qed
  have e: "timers (stopReel 0.9 2 0.5
         (step 0.9 (StopReel 1 0.3) (step 0.9 (StopReel 0 0) mountState))
         (stopReel 0.9 2 0.8
            (step 0.9 (StopReel 1 0.3) (step 0.9 (StopReel 0 0) mountState))
            (step 0.9 (StopReel 1 0.3) (step 0.9 (StopReel 0 0) mountState))))
       = [TNextSpin 0 [[Sym Cherry, Sym Grape, Sym Bell]],
          TNextSpin 0 [[Sym Cherry, Sym Grape, Sym Diamond]]]"
    and f: "allSpinResults (stopReel 0.9 2 0.5
         (step 0.9 (StopReel 1 0.3) (step 0.9 (StopReel 0 0) mountState))
         (stopReel 0.9 2 0.8
            (step 0.9 (StopReel 1 0.3) (step 0.9 (StopReel 0 0) mountState))
            (step 0.9 (StopReel 1 0.3) (step 0.9 (StopReel 0 0) mountState))))
       = [[Sym Cherry, Sym Grape, Sym Diamond]]"
    unfolding cherry_grape_state
    by (simp_all add: stopReel_def Let_def initialState_def generateWeightedSymbolCall_def d bell)
  from a b c e f show ?thesis by blast
qed

text \<open>
  Claim C9. The continue rate has no influence on \<open>stopReel\<close>: with the same draw the
  call returns the same state under any two rates, and in any two states in which the
  reel spins the symbol written is the generator's symbol for the draw; the argument
  handed to the generator is dropped.
\<close>

theorem stopReel_rate_independent:
  "stopReel rate1 reelIndex u c s = stopReel rate2 reelIndex u c s
   \<and> (reelIndex < length (isSpinning c1) \<and> isSpinning c1 ! reelIndex \<and> reelIndex < length (reels c1)
      \<and> reelIndex < length (isSpinning c2) \<and> isSpinning c2 ! reelIndex \<and> reelIndex < length (reels c2)
      \<longrightarrow> reels (stopReel rate1 reelIndex u c1 s1) ! reelIndex = Sym (generateWeightedSymbol u)
        \<and> reels (stopReel rate2 reelIndex u c2 s2) ! reelIndex = Sym (generateWeightedSymbol u))
   \<and> generateWeightedSymbolCall rate1 u = generateWeightedSymbolCall rate2 u"
  by (simp add: reels_stopReel) (simp add: stopReel_def generateWeightedSymbolCall_def)

theorem stopReel_rate_independent_witness:
  "stopReel 0.29 0 0 mountState mountState = stopReel 0.99 0 0 mountState mountState
   \<and> reels (stopReel 0.29 0 0 mountState mountState) ! 0 = Sym Cherry
   \<and> reels (stopReel 0.99 0 0 (mountState\<lparr> continueCount := 5 \<rparr>)
        (mountState\<lparr> continueCount := 5 \<rparr>)) ! 0 = Sym Cherry"
proof -
  have v: "0 < length (isSpinning mountState) \<and> isSpinning mountState ! 0 \<and> 0 < length (reels mountState)
     \<and> 0 < length (isSpinning (mountState\<lparr> continueCount := 5 \<rparr>))
     \<and> isSpinning (mountState\<lparr> continueCount := 5 \<rparr>) ! 0
     \<and> 0 < length (reels (mountState\<lparr> continueCount := 5 \<rparr>))"
    by (simp add: mount_value initialState_def)
  have "stopReel 0.29 0 0 mountState mountState = stopReel 0.99 0 0 mountState mountState
     \<and> reels (stopReel 0.29 0 0 mountState mountState) ! 0 = Sym (generateWeightedSymbol 0)
     \<and> reels (stopReel 0.99 0 0 (mountState\<lparr> continueCount := 5 \<rparr>)
          (mountState\<lparr> continueCount := 5 \<rparr>)) ! 0
         = Sym (generateWeightedSymbol 0)"
    using stopReel_rate_independent
      [where ?rate1.0 = "0.29" and reelIndex = 0 and u = 0 and c = mountState and s = mountState
         and ?rate2.0 = "0.99" and ?c1.0 = mountState and ?s1.0 = mountState
         and ?c2.0 = "mountState\<lparr> continueCount := 5 \<rparr>"
         and ?s2.0 = "mountState\<lparr> continueCount := 5 \<rparr>"] v
    by blast
  then show ?thesis unfolding g0 .
qed

section \<open>The session invariant holds in every reachable state\<close>

lemma stopReel_valid:
  assumes "i < length (isSpinning c)" "isSpinning c ! i"
  shows "stopReel rate i u c s =
     (let newReels = (reels c)[i := Sym (generateWeightedSymbol u)];
          newSpinning = (isSpinning c)[i := False];
          newAll = allSpinResults c @ [newReels]
      in if list_all (\<lambda>b. \<not> b) newSpinning
         then s\<lparr> reels := newReels, isSpinning := newSpinning,
                 remainingStops := remainingStops c - 1, allSpinResults := newAll,
                 timers := timers s @ [if hit newReels then TCheckRound newAll
                                       else TNextSpin (currentSpinIndex c) newAll] \<rparr>
         else s\<lparr> reels := newReels, isSpinning := newSpinning,
                 remainingStops := remainingStops c - 1 \<rparr>)"
  using assms by (simp add: stopReel_def Let_def hit_def generateWeightedSymbolCall_def)

lemma valid_not_settled:
  "i < length (isSpinning s) \<Longrightarrow> isSpinning s ! i \<Longrightarrow> \<not> settled s"
  by (auto simp: settled_def list_all_length)

lemma inv_spinning:
  assumes "sessionInv s" "\<not> settled s"
  shows "length (reels s) = 3" "length (isSpinning s) = 3" "0 \<le> continueCount s"
    "timers s = []" "\<not> showDrinkModal s" "\<not> showPremiumModal s" "gameEnded s = None"
    "length (allSpinResults s) = currentSpinIndex s" "currentSpinIndex s < 3"
    "list_all (\<lambda>spin. \<not> hit spin) (allSpinResults s)"
    "list_all (\<lambda>i. isSpinning s ! i \<or> isSymbol (reels s ! i)) [0, 1, 2]"
    "list_all (\<lambda>spin. \<not> hit spin) (butlast (allSpinResults s))"
  using assms by (simp_all add: sessionInv_def modalOpen_def)

lemma inv_stopReel:
  assumes inv: "sessionInv s"
  shows "sessionInv (stopReel rate i u s s)"
proof (cases "i < length (isSpinning s) \<and> isSpinning s ! i")
  case False
  then show ?thesis using inv by (simp add: stopReel_def)
next
  case True
  then have v: "i < length (isSpinning s)" "isSpinning s ! i" by simp_all
  have ns: "\<not> settled s" using v by (rule valid_not_settled)
  note f = inv_spinning [OF inv ns]
  have i3: "i < 3" using v f(2) by simp
  let ?newReels = "(reels s)[i := Sym (generateWeightedSymbol u)]"
  let ?newSp = "(isSpinning s)[i := False]"
  show ?thesis
  proof (cases "list_all (\<lambda>b. \<not> b) ?newSp")
    case True
    then have eq: "stopReel rate i u s s = s\<lparr> reels := ?newReels, isSpinning := ?newSp,
                 remainingStops := remainingStops s - 1,
                 allSpinResults := allSpinResults s @ [?newReels],
                 timers := timers s @ [if hit ?newReels then TCheckRound (allSpinResults s @ [?newReels])
                                       else TNextSpin (currentSpinIndex s) (allSpinResults s @ [?newReels])] \<rparr>"
      by (simp add: stopReel_valid [OF v] Let_def)
    show ?thesis
      unfolding eq using f True
      by (simp add: sessionInv_def settled_def modalOpen_def)
  next
    case False
    then have eq: "stopReel rate i u s s = s\<lparr> reels := ?newReels, isSpinning := ?newSp,
                 remainingStops := remainingStops s - 1 \<rparr>"
      by (simp add: stopReel_valid [OF v] Let_def)
    have "list_all (\<lambda>j. ?newSp ! j \<or> isSymbol (?newReels ! j)) [0, 1, 2]"
      using f(1,2,11) i3 by (auto simp: nth_list_update)
    then show ?thesis
      unfolding eq using f False
      by (simp add: sessionInv_def settled_def modalOpen_def)
  qed
qed


lemma inv_general:
  assumes "sessionInv s"
  shows "length (reels s) = 3" "length (isSpinning s) = 3" "0 \<le> continueCount s"
    "list_all (\<lambda>spin. \<not> hit spin) (butlast (allSpinResults s))"
    "case gameEnded s of None \<Rightarrow> True | Some c \<Rightarrow> c = continueCount s"
  using assms by (simp_all add: sessionInv_def)

lemma inv_settled:
  assumes "sessionInv s" "settled s"
  shows "(timers s = [] \<and> \<not> (showDrinkModal s \<and> showPremiumModal s))
          \<or> (\<not> modalOpen s \<and> gameEnded s = None
              \<and> timers s = [TCheckRound (allSpinResults s)]
              \<and> length (allSpinResults s) = currentSpinIndex s + 1 \<and> currentSpinIndex s < 3
              \<and> hit (last (allSpinResults s)))
          \<or> (\<not> modalOpen s \<and> gameEnded s = None
              \<and> timers s = [TNextSpin (currentSpinIndex s) (allSpinResults s)]
              \<and> length (allSpinResults s) = currentSpinIndex s + 1 \<and> currentSpinIndex s < 3
              \<and> \<not> hit (last (allSpinResults s)))
          \<or> (\<not> modalOpen s \<and> timers s = [TRestart])
          \<or> (\<not> modalOpen s \<and> timers s = [TEnd (continueCount s)])"
  using assms by (simp add: sessionInv_def)

lemma settled_startSpin: "i < 3 \<Longrightarrow> \<not> settled (startSpin i s)"
  by (simp add: settled_def startSpin_def)

lemma list_all_butlast_last:
  "xs \<noteq> [] \<Longrightarrow> list_all P (butlast xs) \<Longrightarrow> P (last xs) \<Longrightarrow> list_all P xs"
  by (induction xs) (auto split: if_splits)

lemma inv_startSpin:
  assumes "sessionInv s" "settled s" "timers s = []" "\<not> modalOpen s" "gameEnded s = None"
    "length (allSpinResults s) = i" "i < 3" "list_all (\<lambda>spin. \<not> hit spin) (allSpinResults s)"
  shows "sessionInv (startSpin i s)"
  using assms inv_general [OF assms(1)]
  by (simp add: sessionInv_def startSpin_def settled_def modalOpen_def)

lemma inv_startNewRound:
  assumes "sessionInv s" "timers s = []" "\<not> modalOpen s" "gameEnded s = None"
  shows "sessionInv (startNewRound s)"
  using assms inv_general [OF assms(1)]
  by (simp add: sessionInv_def startNewRound_def startSpin_def settled_def modalOpen_def)

lemma inv_showBlackoutAndProceed:
  assumes "sessionInv s" "settled s" "timers s = []" "\<not> modalOpen s" "gameEnded s = None"
  shows "sessionInv (showBlackoutAndProceed s)"
  using assms inv_general [OF assms(1)]
  by (auto simp: sessionInv_def showBlackoutAndProceed_def settled_def modalOpen_def Let_def
      split: option.splits)

lemma inv_showBlackoutAndEnd:
  assumes "sessionInv s" "settled s" "timers s = []" "\<not> modalOpen s" "gameEnded s = None"
  shows "sessionInv (showBlackoutAndEnd s)"
  using assms inv_general [OF assms(1)]
  by (auto simp: sessionInv_def showBlackoutAndEnd_def settled_def modalOpen_def
      split: option.splits)

lemma inv_checkRoundResult:
  assumes "sessionInv s" "settled s" "timers s = []" "\<not> modalOpen s" "gameEnded s = None"
  shows "sessionInv (checkRoundResult rate r u s)"
proof (cases "resolve rate (classify r) u")
  case PremiumSubEvent
  then show ?thesis using assms inv_general [OF assms(1)]
    by (simp add: checkRoundResult_def sessionInv_def settled_def modalOpen_def)
next
  case (ContinueWithBonusReveal n)
  then show ?thesis using assms inv_general [OF assms(1)]
    by (simp add: checkRoundResult_def sessionInv_def settled_def modalOpen_def)
next
  case Continue
  then show ?thesis using inv_showBlackoutAndProceed [OF assms]
    by (simp add: checkRoundResult_def)
next
  case Terminate
  then show ?thesis using inv_showBlackoutAndEnd [OF assms]
    by (simp add: checkRoundResult_def)
qed

lemma inv_handleDrinkModalClose:
  assumes "sessionInv s" "showDrinkModal s" "gameEnded s = None"
  shows "sessionInv (handleDrinkModalClose s)"
proof -
  have st: "settled s" using assms(1,2) by (auto simp: sessionInv_def modalOpen_def split: if_splits)
  from inv_settled [OF assms(1) st] assms(2)
  have t: "timers s = []" and p: "\<not> showPremiumModal s" by (auto simp: modalOpen_def)
  let ?s = "s\<lparr> showDrinkModal := False \<rparr>"
  have "sessionInv ?s" using assms(1,3) st t
    by (simp add: sessionInv_def settled_def modalOpen_def)
  moreover have "settled ?s" "timers ?s = []" "\<not> modalOpen ?s" "gameEnded ?s = None"
    using st t p assms(3) by (simp_all add: settled_def modalOpen_def)
  ultimately show ?thesis unfolding handleDrinkModalClose_def
    by (rule inv_showBlackoutAndProceed)
qed

lemma inv_handlePremiumModalClose:
  assumes "sessionInv s" "showPremiumModal s" "gameEnded s = None"
  shows "sessionInv (handlePremiumModalClose s)"
proof -
  have st: "settled s" using assms(1,2) by (auto simp: sessionInv_def modalOpen_def split: if_splits)
  from inv_settled [OF assms(1) st] assms(2)
  have t: "timers s = []" and p: "\<not> showDrinkModal s" by (auto simp: modalOpen_def)
  let ?s = "s\<lparr> showPremiumModal := False \<rparr>"
  have "sessionInv ?s" using assms(1,3) st t
    by (simp add: sessionInv_def settled_def modalOpen_def)
  moreover have "settled ?s" "timers ?s = []" "\<not> modalOpen ?s" "gameEnded ?s = None"
    using st t p assms(3) by (simp_all add: settled_def modalOpen_def)
  ultimately show ?thesis unfolding handlePremiumModalClose_def
    by (rule inv_showBlackoutAndProceed)
qed

lemma timers_nonempty_settled:
  assumes "sessionInv s" "timers s \<noteq> []"
  shows "settled s"
  using assms by (auto simp: sessionInv_def split: if_splits)

lemma inv_clear_timers:
  assumes "sessionInv s" "settled s" "gameEnded s = None" "\<not> modalOpen s"
  shows "sessionInv (s\<lparr> timers := [] \<rparr>)"
  using assms by (simp add: sessionInv_def settled_def modalOpen_def)

lemma inv_fireTimer:
  assumes inv: "sessionInv s" and ge: "gameEnded s = None"
  shows "sessionInv (fireTimer rate n u s)"
proof (cases "n < length (timers s)")
  case False
  then show ?thesis using inv by (simp add: fireTimer_def)
next
  case True
  then have ne: "timers s \<noteq> []" by auto
  have st: "settled s" using inv ne by (rule timers_nonempty_settled)
  let ?s = "s\<lparr> timers := [] \<rparr>"
  from inv_settled [OF inv st] ne
  consider (check) "\<not> modalOpen s" "timers s = [TCheckRound (allSpinResults s)]"
    | (nxt) "\<not> modalOpen s" "timers s = [TNextSpin (currentSpinIndex s) (allSpinResults s)]"
        "length (allSpinResults s) = currentSpinIndex s + 1" "currentSpinIndex s < 3"
        "\<not> hit (last (allSpinResults s))"
    | (restart) "\<not> modalOpen s" "timers s = [TRestart]"
    | (fin) "\<not> modalOpen s" "timers s = [TEnd (continueCount s)]"
    by blast
  then show ?thesis
  proof cases
    case check
    with True have n: "n = 0" by simp
    have i: "sessionInv ?s" using inv st ge check(1) by (rule inv_clear_timers)
    have "sessionInv (checkRoundResult rate (allSpinResults s) u ?s)"
      using i st check(1) ge
      by (intro inv_checkRoundResult) (simp_all add: settled_def modalOpen_def)
    then show ?thesis using check n by (simp add: fireTimer_def)
  next
    case nxt
    with True have n: "n = 0" by simp
    have i: "sessionInv ?s" using inv st ge nxt(1) by (rule inv_clear_timers)
    have ne2: "allSpinResults s \<noteq> []" using nxt(3) by auto
    have clean: "list_all (\<lambda>spin. \<not> hit spin) (allSpinResults s)"
      using ne2 inv_general(4) [OF inv] nxt(5) by (rule list_all_butlast_last)
    show ?thesis
    proof (cases "currentSpinIndex s < 2")
      case True
      have "sessionInv (startSpin (currentSpinIndex s + 1) ?s)"
        using i st nxt(1,3) ge clean True
        by (intro inv_startSpin) (simp_all add: settled_def modalOpen_def)
      then show ?thesis using nxt n True by (simp add: fireTimer_def)
    next
      case False
      have "sessionInv (checkRoundResult rate (allSpinResults s) u ?s)"
        using i st nxt(1) ge
        by (intro inv_checkRoundResult) (simp_all add: settled_def modalOpen_def)
      then show ?thesis using nxt n False by (simp add: fireTimer_def)
    qed
  next
    case restart
    with True have n: "n = 0" by simp
    have i: "sessionInv ?s" using inv st ge restart(1) by (rule inv_clear_timers)
    have i2: "sessionInv (?s\<lparr> showRushEffect := False \<rparr>)"
      using i st ge by (simp add: sessionInv_def settled_def modalOpen_def)
    have "sessionInv (startNewRound (?s\<lparr> showRushEffect := False \<rparr>))"
      using i2 restart(1) ge
      by (intro inv_startNewRound) (simp_all add: modalOpen_def)
    then show ?thesis using restart n by (simp add: fireTimer_def)
  next
    case fin
    with True have n: "n = 0" by simp
    have eq: "fireTimer rate n u s = s\<lparr> timers := [], showRushEffect := False,
        showGameOver := False, gameEnded := Some (continueCount s) \<rparr>"
      using fin n by (simp add: fireTimer_def)
    have "\<not> showDrinkModal s" "\<not> showPremiumModal s" using fin(1) by (simp_all add: modalOpen_def)
    then show ?thesis unfolding eq using inv_general [OF inv] st
      by (simp add: sessionInv_def settled_def)
  qed
qed

lemma inv_step:
  assumes "sessionInv s"
  shows "sessionInv (step rate e s)"
proof (cases "gameEnded s = None")
  case False
  then show ?thesis using assms by (simp add: step_def)
next
  case True
  show ?thesis
  proof (cases e)
    case (StopReel i u)
    then show ?thesis using True assms by (simp add: step_def inv_stopReel)
  next
    case (Timeout n u)
    then show ?thesis using True assms by (simp add: step_def inv_fireTimer)
  next
    case DrinkClose
    then show ?thesis using True assms by (simp add: step_def inv_handleDrinkModalClose)
  next
    case (PremiumDone u)
    then show ?thesis using True assms
      by (simp add: step_def premiumModal_def inv_handlePremiumModalClose)
  qed
qed

lemma inv_mount: "sessionInv mountState"
  by (simp add: mountState_def startNewRound_def startSpin_def initialState_def
      sessionInv_def settled_def modalOpen_def)

lemma reachable_inv: "reachable rate s \<Longrightarrow> sessionInv s"
  by (induction rule: reachable.induct) (simp_all add: inv_mount inv_step)

section \<open>The early-exit decision\<close>

lemma foldl_classifyStep_slots:
  "foldl classifyStep c r =
     \<lparr> cherryCount = cherryCount c + sum_list (map (\<lambda>spin. length (filter (\<lambda>s. s = screenCherry) spin)) r),
       hasSmallYaku = (hasSmallYaku c \<or> list_ex checkSmallYakuMatch r),
       hasPremiumFlag = (hasPremiumFlag c \<or> list_ex isPremiumFlag r) \<rparr>"
proof (induction r arbitrary: c)
  case Nil
  then show ?case by simp
next
  case (Cons spin r)
  show ?case
    by (simp only: foldl_Cons Cons.IH) (auto simp: classifyStep_def simp del: checkSmallYakuMatch.simps)
qed

lemma screenCherry_filter_pos:
  "0 < length (filter (\<lambda>s. s = screenCherry) spin) \<longleftrightarrow> screenCherry \<in> set spin"
  by (induction spin) auto

lemma screenCherry_sum_pos:
  "0 < sum_list (map (\<lambda>spin. length (filter (\<lambda>s. s = screenCherry) spin)) r)
     \<longleftrightarrow> list_ex (\<lambda>spin. screenCherry \<in> set spin) r"
  by (induction r) (auto simp: screenCherry_filter_pos simp del: length_greater_0_conv)

text \<open>
  The loop of \<open>checkRoundResult\<close> and the two tests of \<open>stopReel\<close> look for the same
  things, so on the states a session reaches the code's decision from the latest spin is
  the decision its own loop would give on the whole record.
\<close>

lemma classify_hit:
  "(cherryCount (classify r) > 0 \<or> hasSmallYaku (classify r)) \<longleftrightarrow> list_ex hit r"
proof -
  have "(cherryCount (classify r) > 0 \<or> hasSmallYaku (classify r)) \<longleftrightarrow>
      list_ex (\<lambda>spin. screenCherry \<in> set spin) r \<or> list_ex checkSmallYakuMatch r"
    unfolding classify_def foldl_classifyStep_slots
    by (simp add: screenCherry_sum_pos del: checkSmallYakuMatch.simps)
  also have "\<dots> \<longleftrightarrow> list_ex hit r"
    by (induction r) (auto simp: hit_def simp del: checkSmallYakuMatch.simps)
  finally show ?thesis .
qed

lemma list_ex_hit_not_all: "list_all (\<lambda>spin. \<not> hit spin) r \<Longrightarrow> \<not> list_ex hit r"
  by (induction r) auto

lemma latest_spin_agrees_with_code_loop:
  assumes "reachable rate s" "\<not> settled s"
  shows "(cherryCount (classify (allSpinResults s @ [newReels])) > 0
          \<or> hasSmallYaku (classify (allSpinResults s @ [newReels]))) = hit newReels"
proof -
  have inv: "sessionInv s" using assms(1) by (rule reachable_inv)
  have "\<not> list_ex hit (allSpinResults s)"
    using inv_spinning(10) [OF inv assms(2)] by (rule list_ex_hit_not_all)
  then show ?thesis unfolding classify_hit by simp
qed

text \<open>
  Claim C7. After stops that gave a cherry and a grape, the stop of the third reel with a
  bell completes the first spin of a session. The whole record then holds a cherry, so
  the specified classifier counts one and the specified sequencer (\<open>stopReelSpec\<close>) sends
  the round to completion; \<open>stopReel\<close> schedules the next spin instead, because its test
  of line 72 looks for a string no reel holds.
\<close>

theorem early_exit_misses_cherry:
  "reachable 0.9 (step 0.9 (StopReel 1 0.3) (step 0.9 (StopReel 0 0) mountState))
   \<and> timers (stopReel 0.9 2 0.8
        (step 0.9 (StopReel 1 0.3) (step 0.9 (StopReel 0 0) mountState))
        (step 0.9 (StopReel 1 0.3) (step 0.9 (StopReel 0 0) mountState)))
     = [TNextSpin 0 [[Sym Cherry, Sym Grape, Sym Bell]]]
   \<and> timers (stopReelSpec 0.9 2 0.8
        (step 0.9 (StopReel 1 0.3) (step 0.9 (StopReel 0 0) mountState))
        (step 0.9 (StopReel 1 0.3) (step 0.9 (StopReel 0 0) mountState)))
     = [TCheckRound [[Sym Cherry, Sym Grape, Sym Bell]]]
   \<and> earlyExitFull [[Sym Cherry, Sym Grape, Sym Bell]]
   \<and> \<not> hit [Sym Cherry, Sym Grape, Sym Bell]"
proof -
  have bell: "generateWeightedSymbol (4 / 5) = Bell"
    by (simp add: generateWeightedSymbol_def totalWeight_def BASE_SYMBOL_WEIGHTS_def)
  note c2 = cherry_grape_state
  have e: "earlyExitFull [[Sym Cherry, Sym Grape, Sym Bell]]"
    by (simp add: earlyExitFull_def specClassify_def)
  have h: "\<not> hit [Sym Cherry, Sym Grape, Sym Bell]"
    by (simp add: hit_def)
  have a: "reachable 0.9 (step 0.9 (StopReel 1 0.3) (step 0.9 (StopReel 0 0) mountState))"
    by (intro reachable.step reachable.mount)
  have b: "timers (stopReel 0.9 2 0.8
        (step 0.9 (StopReel 1 0.3) (step 0.9 (StopReel 0 0) mountState))
        (step 0.9 (StopReel 1 0.3) (step 0.9 (StopReel 0 0) mountState)))
     = [TNextSpin 0 [[Sym Cherry, Sym Grape, Sym Bell]]]"
    unfolding c2
    by (simp add: stopReel_def Let_def initialState_def generateWeightedSymbolCall_def bell)
  have c: "timers (stopReelSpec 0.9 2 0.8
        (step 0.9 (StopReel 1 0.3) (step 0.9 (StopReel 0 0) mountState))
        (step 0.9 (StopReel 1 0.3) (step 0.9 (StopReel 0 0) mountState)))
     = [TCheckRound [[Sym Cherry, Sym Grape, Sym Bell]]]"
    unfolding c2
    by (simp add: stopReelSpec_def Let_def initialState_def generateWeightedSymbolCall_def bell e)
  from a b c e h show ?thesis by blast
qed

section \<open>Continuation: the premium sub-event and the continue count\<close>

lemma freshRound_startNewRound: "freshRound (startNewRound s)"
  by (simp add: freshRound_def startNewRound_def startSpin_def)

lemma startNewRound_keeps:
  "continueCount (startNewRound s) = continueCount s"
  "gameEnded (startNewRound s) = gameEnded s"
  "timers (startNewRound s) = timers s"
  by (simp_all add: startNewRound_def startSpin_def)

lemma showBlackoutAndProceed_fields:
  "continueCount (showBlackoutAndProceed s) = continueCount s + 1"
  "timers (showBlackoutAndProceed s) = timers s @ [TRestart]"
  "gameEnded (showBlackoutAndProceed s) = gameEnded s"
  "showDrinkModal (showBlackoutAndProceed s) = showDrinkModal s"
  "showPremiumModal (showBlackoutAndProceed s) = showPremiumModal s"
  by (simp_all add: showBlackoutAndProceed_def Let_def)

lemma showBlackoutAndEnd_fields:
  "continueCount (showBlackoutAndEnd s) = continueCount s"
  "timers (showBlackoutAndEnd s) = timers s @ [TEnd (continueCount s)]"
  "gameEnded (showBlackoutAndEnd s) = gameEnded s"
  by (simp_all add: showBlackoutAndEnd_def)

lemma fireTimer_last:
  "fireTimer rate (length ts) w (s\<lparr> timers := ts @ [t] \<rparr>) = runTimer rate t w (s\<lparr> timers := ts \<rparr>)"
  by (simp add: fireTimer_def nth_append)

lemma fireTimer_restart_after_proceed:
  "fireTimer rate (length (timers s)) w (showBlackoutAndProceed s)
     = startNewRound (s\<lparr> showRushEffect := False, showGameOver := False,
          continueCount := continueCount s + 1, rushNumber := continueCount s + 2 \<rparr>)"
  by (simp add: fireTimer_def showBlackoutAndProceed_def Let_def nth_append startNewRound_def
      startSpin_def)

text \<open>
  Claim C4. A record with the premium flag resolves to the premium sub-event under every
  continue rate and every draw. The modal picks one of its two options by comparing one
  draw with 0.5, and whichever it picks the state after it is the same: the continue
  count is one higher, nothing ends the session, and the pending callback starts a fresh
  round.
\<close>

theorem premium_always_continues:
  assumes "hasPremiumFlag (classify r)"
  shows "resolve continueRate (classify r) u = PremiumSubEvent
    \<and> checkRoundResult continueRate r u s = s\<lparr> showPremiumModal := True \<rparr>
    \<and> fst (premiumModal v s') = (if v < 0.5 then Everyone else Self)
    \<and> snd (premiumModal v s') = snd (premiumModal v' s')
    \<and> continueCount (snd (premiumModal v (checkRoundResult continueRate r u s))) = continueCount s + 1
    \<and> timers (snd (premiumModal v (checkRoundResult continueRate r u s))) = timers s @ [TRestart]
    \<and> gameEnded (snd (premiumModal v (checkRoundResult continueRate r u s))) = gameEnded s
    \<and> \<not> showPremiumModal (snd (premiumModal v (checkRoundResult continueRate r u s)))
    \<and> freshRound (fireTimer continueRate (length (timers s)) w
          (snd (premiumModal v (checkRoundResult continueRate r u s))))
    \<and> continueCount (fireTimer continueRate (length (timers s)) w
          (snd (premiumModal v (checkRoundResult continueRate r u s)))) = continueCount s + 1
    \<and> gameEnded (fireTimer continueRate (length (timers s)) w
          (snd (premiumModal v (checkRoundResult continueRate r u s)))) = gameEnded s"
proof -
  have res: "resolve continueRate (classify r) u = PremiumSubEvent"
    using assms by (simp add: resolve_def)
  have chk: "checkRoundResult continueRate r u s = s\<lparr> showPremiumModal := True \<rparr>"
    by (simp add: checkRoundResult_def res)
  have modal: "snd (premiumModal v (s\<lparr> showPremiumModal := True \<rparr>))
      = showBlackoutAndProceed (s\<lparr> showPremiumModal := False \<rparr>)"
    by (simp add: premiumModal_def handlePremiumModalClose_def)
  have fire: "fireTimer continueRate (length (timers s)) w
        (showBlackoutAndProceed (s\<lparr> showPremiumModal := False \<rparr>))
      = startNewRound (s\<lparr> showPremiumModal := False, showRushEffect := False, showGameOver := False,
          continueCount := continueCount s + 1, rushNumber := continueCount s + 2 \<rparr>)"
    using fireTimer_restart_after_proceed [of continueRate "s\<lparr> showPremiumModal := False \<rparr>" w]
    by simp
  show ?thesis
    unfolding chk modal fire
    by (simp add: res showBlackoutAndProceed_fields freshRound_startNewRound startNewRound_keeps
        premiumModal_def premiumSelect_def)
qed

theorem premium_always_continues_witness:
  "resolve 0.29 (classify [[Sym Star, Sym Star, Sym Star]]) 0.999 = PremiumSubEvent
   \<and> continueCount (snd (premiumModal 0.7
        (checkRoundResult 0.29 [[Sym Star, Sym Star, Sym Star]] 0.999 initialState))) = 1
   \<and> fst (premiumModal 0.7 initialState) = Self"
proof -
  have p: "hasPremiumFlag (classify [[Sym Star, Sym Star, Sym Star]])"
    by (simp add: classify_def classifyStep_def isPremiumFlag_def)
  from premium_always_continues [OF p, where continueRate = "0.29" and u = "0.999"
      and s = initialState and v = "0.7" and s' = initialState and v' = 0 and w = 0]
  have a: "resolve 0.29 (classify [[Sym Star, Sym Star, Sym Star]]) 0.999 = PremiumSubEvent"
    and b: "continueCount (snd (premiumModal 0.7
        (checkRoundResult 0.29 [[Sym Star, Sym Star, Sym Star]] 0.999 initialState)))
        = continueCount initialState + 1"
    and c: "fst (premiumModal 0.7 initialState) = (if (0.7::real) < 0.5 then Everyone else Self)"
    by blast+
  have "continueCount initialState = 0" by (simp add: initialState_def)
  with a b c show ?thesis by simp
qed

lemma check_step:
  assumes inv: "sessionInv s" and chk: "invokesCheck (Timeout n u) s = Some r"
  shows "step rate (Timeout n u) s = checkRoundResult rate r u (s\<lparr> timers := [] \<rparr>)"
    "settled s" "\<not> modalOpen s" "gameEnded s = None" "r = allSpinResults s"
    "1 \<le> length r" "length r \<le> 3" "length r < 3 \<Longrightarrow> hit (last r)"
proof -
  from chk have ge: "gameEnded s = None" and n: "n < length (timers s)"
    by (auto split: if_splits)
  then have ne: "timers s \<noteq> []" by auto
  have st: "settled s" using inv ne by (rule timers_nonempty_settled)
  from inv_settled [OF inv st] ne chk n
  consider (a) "\<not> modalOpen s" "timers s = [TCheckRound (allSpinResults s)]"
      "length (allSpinResults s) = currentSpinIndex s + 1" "currentSpinIndex s < 3"
      "hit (last (allSpinResults s))"
    | (b) "\<not> modalOpen s" "timers s = [TNextSpin (currentSpinIndex s) (allSpinResults s)]"
      "length (allSpinResults s) = currentSpinIndex s + 1" "currentSpinIndex s < 3"
      "\<not> currentSpinIndex s < 2"
    by (auto split: if_splits)
  then have "step rate (Timeout n u) s = checkRoundResult rate r u (s\<lparr> timers := [] \<rparr>)
      \<and> \<not> modalOpen s \<and> r = allSpinResults s \<and> 1 \<le> length r \<and> length r \<le> 3
      \<and> (length r < 3 \<longrightarrow> hit (last r))"
  proof cases
    case a
    with n have "n = 0" by simp
    with a chk ge show ?thesis by (auto simp: step_def fireTimer_def)
  next
    case b
    with n have "n = 0" by simp
    with b chk ge show ?thesis by (auto simp: step_def fireTimer_def)
  qed
  with st ge show "step rate (Timeout n u) s = checkRoundResult rate r u (s\<lparr> timers := [] \<rparr>)"
    "settled s" "\<not> modalOpen s" "gameEnded s = None" "r = allSpinResults s"
    "1 \<le> length r" "length r \<le> 3" "length r < 3 \<Longrightarrow> hit (last r)"
    by blast+
qed


lemma step_alive: "gameEnded s = None \<Longrightarrow> step rate e s = handle rate e s"
  by (simp add: step_def)

lemma step_ended: "gameEnded s = Some c \<Longrightarrow> step rate e s = s"
  by (simp add: step_def)

lemma proceed_then_restart:
  assumes "timers s = []" "gameEnded s = None"
  shows "continueCount (showBlackoutAndProceed s) = continueCount s + 1"
    "timers (showBlackoutAndProceed s) = [TRestart]"
    "gameEnded (showBlackoutAndProceed s) = None"
    "freshRound (step rate (Timeout 0 w) (showBlackoutAndProceed s))"
    "continueCount (step rate (Timeout 0 w) (showBlackoutAndProceed s)) = continueCount s + 1"
    "gameEnded (step rate (Timeout 0 w) (showBlackoutAndProceed s)) = None"
proof -
  have f: "step rate (Timeout 0 w) (showBlackoutAndProceed s)
      = fireTimer rate (length (timers s)) w (showBlackoutAndProceed s)"
    using assms by (simp add: step_alive showBlackoutAndProceed_fields)
  show "continueCount (showBlackoutAndProceed s) = continueCount s + 1"
    "timers (showBlackoutAndProceed s) = [TRestart]"
    "gameEnded (showBlackoutAndProceed s) = None"
    using assms by (simp_all add: showBlackoutAndProceed_fields)
  show "freshRound (step rate (Timeout 0 w) (showBlackoutAndProceed s))"
    "continueCount (step rate (Timeout 0 w) (showBlackoutAndProceed s)) = continueCount s + 1"
    "gameEnded (step rate (Timeout 0 w) (showBlackoutAndProceed s)) = None"
    unfolding f fireTimer_restart_after_proceed
    using assms by (simp_all add: freshRound_startNewRound startNewRound_keeps)
qed

lemma reachable_run: "reachable rate s \<Longrightarrow> reachable rate (run rate es s)"
  by (induction es arbitrary: s) (auto intro: reachable.step)

lemma three_stops:
  assumes sp: "isSpinning s = [True, True, True]" and len: "length (reels s) = 3"
    and ge: "gameEnded s = None"
  shows "step rate (StopReel 2 c) (step rate (StopReel 1 b) (step rate (StopReel 0 a) s)) =
     s\<lparr> reels := [Sym (generateWeightedSymbol a), Sym (generateWeightedSymbol b),
                  Sym (generateWeightedSymbol c)],
        isSpinning := [False, False, False],
        remainingStops := remainingStops s - 3,
        allSpinResults := allSpinResults s @
          [[Sym (generateWeightedSymbol a), Sym (generateWeightedSymbol b),
            Sym (generateWeightedSymbol c)]],
        timers := timers s @
          [if hit [Sym (generateWeightedSymbol a), Sym (generateWeightedSymbol b),
                   Sym (generateWeightedSymbol c)]
           then TCheckRound (allSpinResults s @
             [[Sym (generateWeightedSymbol a), Sym (generateWeightedSymbol b),
               Sym (generateWeightedSymbol c)]])
           else TNextSpin (currentSpinIndex s) (allSpinResults s @
             [[Sym (generateWeightedSymbol a), Sym (generateWeightedSymbol b),
               Sym (generateWeightedSymbol c)]])] \<rparr>"
proof -
  from len obtain x y z where r: "reels s = [x, y, z]" by (auto simp: three_list)
  let ?s1 = "s\<lparr> reels := [Sym (generateWeightedSymbol a), y, z],
      isSpinning := [False, True, True], remainingStops := remainingStops s - 1 \<rparr>"
  let ?s2 = "s\<lparr> reels := [Sym (generateWeightedSymbol a), Sym (generateWeightedSymbol b), z],
      isSpinning := [False, False, True], remainingStops := remainingStops s - 2 \<rparr>"
  have 1: "step rate (StopReel 0 a) s = ?s1"
    using sp r ge by (simp add: step_def stopReel_valid Let_def)
  have 2: "step rate (StopReel 1 b) ?s1 = ?s2"
    using ge by (simp add: step_def stopReel_valid Let_def)
  show ?thesis
    unfolding 1 2 using ge by (simp add: step_def stopReel_valid Let_def)
qed


text \<open>
  A session whose nine stops all draw 0: every reel shows a cherry, no spin ends the
  round, and after the third spin the callback that will call \<open>checkRoundResult\<close> is
  pending.
\<close>

lemma cherries_first_spin:
  "run rate [StopReel 0 0, StopReel 1 0, StopReel 2 0, Timeout 0 w] mountState =
     initialState\<lparr> reels := [Placeholder, Placeholder, Placeholder],
       isSpinning := [True, True, True], remainingStops := 6, currentSpinIndex := 1,
       allSpinResults := [[Sym Cherry, Sym Cherry, Sym Cherry]] \<rparr>"
  by (simp add: step_def stopReel_def Let_def mount_value initialState_def
      generateWeightedSymbolCall_def g0 fireTimer_def startSpin_def)

lemma cherries_second_spin:
  "run rate [StopReel 0 0, StopReel 1 0, StopReel 2 0, Timeout 0 w]
     (initialState\<lparr> reels := [Placeholder, Placeholder, Placeholder],
       isSpinning := [True, True, True], remainingStops := 6, currentSpinIndex := 1,
       allSpinResults := [[Sym Cherry, Sym Cherry, Sym Cherry]] \<rparr>) =
     initialState\<lparr> reels := [Placeholder, Placeholder, Placeholder],
       isSpinning := [True, True, True], remainingStops := 3, currentSpinIndex := 2,
       allSpinResults := [[Sym Cherry, Sym Cherry, Sym Cherry], [Sym Cherry, Sym Cherry, Sym Cherry]] \<rparr>"
  by (simp add: step_def stopReel_def Let_def initialState_def
      generateWeightedSymbolCall_def g0 fireTimer_def startSpin_def)

lemma cherries_third_spin:
  "run rate [StopReel 0 0, StopReel 1 0, StopReel 2 0]
     (initialState\<lparr> reels := [Placeholder, Placeholder, Placeholder],
       isSpinning := [True, True, True], remainingStops := 3, currentSpinIndex := 2,
       allSpinResults := [[Sym Cherry, Sym Cherry, Sym Cherry], [Sym Cherry, Sym Cherry, Sym Cherry]] \<rparr>) =
     initialState\<lparr> reels := [Sym Cherry, Sym Cherry, Sym Cherry],
       isSpinning := [False, False, False], remainingStops := 0, currentSpinIndex := 2,
       allSpinResults := [[Sym Cherry, Sym Cherry, Sym Cherry], [Sym Cherry, Sym Cherry, Sym Cherry],
         [Sym Cherry, Sym Cherry, Sym Cherry]],
       timers := [TNextSpin 2 [[Sym Cherry, Sym Cherry, Sym Cherry], [Sym Cherry, Sym Cherry, Sym Cherry],
         [Sym Cherry, Sym Cherry, Sym Cherry]]] \<rparr>"
  by (simp add: step_def stopReel_def Let_def initialState_def
      generateWeightedSymbolCall_def g0)

lemma run_append: "run rate (es @ es') s = run rate es' (run rate es s)"
  by (induction es arbitrary: s) simp_all

lemma nine_cherries:
  "run rate ([StopReel 0 0, StopReel 1 0, StopReel 2 0, Timeout 0 0]
       @ [StopReel 0 0, StopReel 1 0, StopReel 2 0, Timeout 0 0]
       @ [StopReel 0 0, StopReel 1 0, StopReel 2 0]) mountState =
     initialState\<lparr> reels := [Sym Cherry, Sym Cherry, Sym Cherry],
       isSpinning := [False, False, False], remainingStops := 0, currentSpinIndex := 2,
       allSpinResults := [[Sym Cherry, Sym Cherry, Sym Cherry], [Sym Cherry, Sym Cherry, Sym Cherry],
         [Sym Cherry, Sym Cherry, Sym Cherry]],
       timers := [TNextSpin 2 [[Sym Cherry, Sym Cherry, Sym Cherry], [Sym Cherry, Sym Cherry, Sym Cherry],
         [Sym Cherry, Sym Cherry, Sym Cherry]]] \<rparr>"
  by (simp only: run_append cherries_first_spin cherries_second_spin cherries_third_spin)

text \<open>
  Claim C8. The continue count is 0 at the start and never negative. When a round
  completes in a reachable state, a Continue outcome, a bonus reveal once its modal is
  closed, and a premium sub-event once its modal is done each raise the count by exactly
  one and schedule the callback that starts a fresh round; a Terminate outcome leaves the
  count as it is, and its callback reports that count through \<open>onGameEnd\<close>, after which
  no event changes the state.
\<close>

theorem continueCount_law:
  assumes re: "reachable continueRate s"
  shows "continueCount initialState = 0 \<and> continueCount mountState = 0 \<and> 0 \<le> continueCount s
    \<and> (invokesCheck (Timeout n u) s = Some r \<longrightarrow>
         (case resolve continueRate (classify r) u of
            Continue \<Rightarrow>
              continueCount (step continueRate (Timeout n u) s) = continueCount s + 1
              \<and> timers (step continueRate (Timeout n u) s) = [TRestart]
              \<and> freshRound (run continueRate [Timeout n u, Timeout 0 w] s)
              \<and> continueCount (run continueRate [Timeout n u, Timeout 0 w] s) = continueCount s + 1
              \<and> gameEnded (run continueRate [Timeout n u, Timeout 0 w] s) = None
          | ContinueWithBonusReveal k \<Rightarrow>
              showDrinkModal (step continueRate (Timeout n u) s)
              \<and> timers (step continueRate (Timeout n u) s) = []
              \<and> continueCount (step continueRate (Timeout n u) s) = continueCount s
              \<and> continueCount (run continueRate [Timeout n u, DrinkClose] s) = continueCount s + 1
              \<and> timers (run continueRate [Timeout n u, DrinkClose] s) = [TRestart]
              \<and> freshRound (run continueRate [Timeout n u, DrinkClose, Timeout 0 w] s)
              \<and> continueCount (run continueRate [Timeout n u, DrinkClose, Timeout 0 w] s)
                  = continueCount s + 1
              \<and> gameEnded (run continueRate [Timeout n u, DrinkClose, Timeout 0 w] s) = None
          | PremiumSubEvent \<Rightarrow>
              showPremiumModal (step continueRate (Timeout n u) s)
              \<and> timers (step continueRate (Timeout n u) s) = []
              \<and> continueCount (step continueRate (Timeout n u) s) = continueCount s
              \<and> continueCount (run continueRate [Timeout n u, PremiumDone v] s) = continueCount s + 1
              \<and> timers (run continueRate [Timeout n u, PremiumDone v] s) = [TRestart]
              \<and> freshRound (run continueRate [Timeout n u, PremiumDone v, Timeout 0 w] s)
              \<and> continueCount (run continueRate [Timeout n u, PremiumDone v, Timeout 0 w] s)
                  = continueCount s + 1
              \<and> gameEnded (run continueRate [Timeout n u, PremiumDone v, Timeout 0 w] s) = None
          | Terminate \<Rightarrow>
              continueCount (step continueRate (Timeout n u) s) = continueCount s
              \<and> timers (step continueRate (Timeout n u) s) = [TEnd (continueCount s)]
              \<and> gameEnded (step continueRate (Timeout n u) s) = None
              \<and> gameEnded (run continueRate [Timeout n u, Timeout 0 w] s) = Some (continueCount s)
              \<and> continueCount (run continueRate [Timeout n u, Timeout 0 w] s) = continueCount s
              \<and> step continueRate e (run continueRate [Timeout n u, Timeout 0 w] s)
                  = run continueRate [Timeout n u, Timeout 0 w] s))"
proof -
  have inv: "sessionInv s" using re by (rule reachable_inv)
  have init: "continueCount initialState = 0" "continueCount mountState = 0"
    by (simp_all add: mount_value initialState_def)
  have nonneg: "0 \<le> continueCount s" using inv by (rule inv_general)
  have main: "(case resolve continueRate (classify r) u of
            Continue \<Rightarrow>
              continueCount (step continueRate (Timeout n u) s) = continueCount s + 1
              \<and> timers (step continueRate (Timeout n u) s) = [TRestart]
              \<and> freshRound (run continueRate [Timeout n u, Timeout 0 w] s)
              \<and> continueCount (run continueRate [Timeout n u, Timeout 0 w] s) = continueCount s + 1
              \<and> gameEnded (run continueRate [Timeout n u, Timeout 0 w] s) = None
          | ContinueWithBonusReveal k \<Rightarrow>
              showDrinkModal (step continueRate (Timeout n u) s)
              \<and> timers (step continueRate (Timeout n u) s) = []
              \<and> continueCount (step continueRate (Timeout n u) s) = continueCount s
              \<and> continueCount (run continueRate [Timeout n u, DrinkClose] s) = continueCount s + 1
              \<and> timers (run continueRate [Timeout n u, DrinkClose] s) = [TRestart]
              \<and> freshRound (run continueRate [Timeout n u, DrinkClose, Timeout 0 w] s)
              \<and> continueCount (run continueRate [Timeout n u, DrinkClose, Timeout 0 w] s)
                  = continueCount s + 1
              \<and> gameEnded (run continueRate [Timeout n u, DrinkClose, Timeout 0 w] s) = None
          | PremiumSubEvent \<Rightarrow>
              showPremiumModal (step continueRate (Timeout n u) s)
              \<and> timers (step continueRate (Timeout n u) s) = []
              \<and> continueCount (step continueRate (Timeout n u) s) = continueCount s
              \<and> continueCount (run continueRate [Timeout n u, PremiumDone v] s) = continueCount s + 1
              \<and> timers (run continueRate [Timeout n u, PremiumDone v] s) = [TRestart]
              \<and> freshRound (run continueRate [Timeout n u, PremiumDone v, Timeout 0 w] s)
              \<and> continueCount (run continueRate [Timeout n u, PremiumDone v, Timeout 0 w] s)
                  = continueCount s + 1
              \<and> gameEnded (run continueRate [Timeout n u, PremiumDone v, Timeout 0 w] s) = None
          | Terminate \<Rightarrow>
              continueCount (step continueRate (Timeout n u) s) = continueCount s
              \<and> timers (step continueRate (Timeout n u) s) = [TEnd (continueCount s)]
              \<and> gameEnded (step continueRate (Timeout n u) s) = None
              \<and> gameEnded (run continueRate [Timeout n u, Timeout 0 w] s) = Some (continueCount s)
              \<and> continueCount (run continueRate [Timeout n u, Timeout 0 w] s) = continueCount s
              \<and> step continueRate e (run continueRate [Timeout n u, Timeout 0 w] s)
                  = run continueRate [Timeout n u, Timeout 0 w] s)"
    if chk: "invokesCheck (Timeout n u) s = Some r"
  proof -
    note c = check_step [OF inv chk]
    let ?s0 = "s\<lparr> timers := [] \<rparr>"
    have s0: "timers ?s0 = []" "gameEnded ?s0 = None" "continueCount ?s0 = continueCount s"
      using c(4) by simp_all
    show ?thesis
    proof (cases "resolve continueRate (classify r) u")
      case Continue
      then have st: "step continueRate (Timeout n u) s = showBlackoutAndProceed ?s0"
        by (simp add: c(1) checkRoundResult_def)
      show ?thesis
        using proceed_then_restart [OF s0(1,2)]
        by (simp add: Continue st)
    next
      case (ContinueWithBonusReveal k)
      then have st: "step continueRate (Timeout n u) s = ?s0\<lparr> drinkCount := k, showDrinkModal := True \<rparr>"
        by (simp add: c(1) checkRoundResult_def)
      let ?s1 = "?s0\<lparr> drinkCount := k, showDrinkModal := False \<rparr>"
      have cl: "step continueRate DrinkClose (?s0\<lparr> drinkCount := k, showDrinkModal := True \<rparr>)
          = showBlackoutAndProceed ?s1"
        using c(4) by (simp add: step_alive handleDrinkModalClose_def)
      have s1: "timers ?s1 = []" "gameEnded ?s1 = None" using c(4) by simp_all
      show ?thesis
        using proceed_then_restart [OF s1] c(4)
        by (simp add: ContinueWithBonusReveal st cl)
    next
      case PremiumSubEvent
      then have st: "step continueRate (Timeout n u) s = ?s0\<lparr> showPremiumModal := True \<rparr>"
        by (simp add: c(1) checkRoundResult_def)
      let ?s1 = "?s0\<lparr> showPremiumModal := False \<rparr>"
      have cl: "step continueRate (PremiumDone v) (?s0\<lparr> showPremiumModal := True \<rparr>)
          = showBlackoutAndProceed ?s1"
        using c(4) by (simp add: step_alive premiumModal_def handlePremiumModalClose_def)
      have s1: "timers ?s1 = []" "gameEnded ?s1 = None" using c(4) by simp_all
      show ?thesis
        using proceed_then_restart [OF s1] c(4)
        by (simp add: PremiumSubEvent st cl)
    next
      case Terminate
      then have st: "step continueRate (Timeout n u) s = showBlackoutAndEnd ?s0"
        by (simp add: c(1) checkRoundResult_def)
      have fin: "step continueRate (Timeout 0 w) (showBlackoutAndEnd ?s0)
          = ?s0\<lparr> showRushEffect := False, showGameOver := False,
                 gameEnded := Some (continueCount s) \<rparr>"
        using c(4) by (simp add: step_alive fireTimer_def showBlackoutAndEnd_def)
      show ?thesis
        using c(4) by (simp add: Terminate st fin showBlackoutAndEnd_fields step_ended)
    qed
  qed
  show ?thesis using init nonneg main by blast
qed

theorem continueCount_law_witness:
  "gameEnded (run 0.29 [Timeout 0 0.99, Timeout 0 0]
      (run 0.29 ([StopReel 0 0, StopReel 1 0, StopReel 2 0, Timeout 0 0]
         @ [StopReel 0 0, StopReel 1 0, StopReel 2 0, Timeout 0 0]
         @ [StopReel 0 0, StopReel 1 0, StopReel 2 0]) mountState)) = Some 0
   \<and> continueCount (run 0.29 [Timeout 0 0.99, Timeout 0 0]
      (run 0.29 ([StopReel 0 0, StopReel 1 0, StopReel 2 0, Timeout 0 0]
         @ [StopReel 0 0, StopReel 1 0, StopReel 2 0, Timeout 0 0]
         @ [StopReel 0 0, StopReel 1 0, StopReel 2 0]) mountState)) = 0
   \<and> continueCount mountState = 0"
proof -
  let ?s = "run 0.29 ([StopReel 0 0, StopReel 1 0, StopReel 2 0, Timeout 0 0]
         @ [StopReel 0 0, StopReel 1 0, StopReel 2 0, Timeout 0 0]
         @ [StopReel 0 0, StopReel 1 0, StopReel 2 0]) mountState"
  let ?r = "[[Sym Cherry, Sym Cherry, Sym Cherry], [Sym Cherry, Sym Cherry, Sym Cherry],
         [Sym Cherry, Sym Cherry, Sym Cherry]]"
  have re: "reachable 0.29 ?s" by (intro reachable_run reachable.mount)
  have chk: "invokesCheck (Timeout 0 0.99) ?s = Some ?r"
    unfolding nine_cherries by (simp add: initialState_def)
  have cl: "classify ?r = \<lparr> cherryCount = 0, hasSmallYaku = False, hasPremiumFlag = False \<rparr>"
    using classify_on_symbols [of "[[Cherry, Cherry, Cherry], [Cherry, Cherry, Cherry], [Cherry, Cherry, Cherry]]"]
    by simp
  have res: "resolve 0.29 (classify ?r) 0.99 = Terminate"
    unfolding cl by (simp add: resolve_def)
  have c0: "continueCount ?s = 0" unfolding nine_cherries by (simp add: initialState_def)
  note law = continueCount_law [OF re, where n = 0 and u = "0.99" and w = 0 and v = 0
      and e = DrinkClose and r = ?r]
  from law have m: "continueCount mountState = 0" by blast
  from law chk have "case resolve 0.29 (classify ?r) 0.99 of
          Terminate \<Rightarrow>
            gameEnded (run 0.29 [Timeout 0 0.99, Timeout 0 0] ?s) = Some (continueCount ?s)
            \<and> continueCount (run 0.29 [Timeout 0 0.99, Timeout 0 0] ?s) = continueCount ?s
        | _ \<Rightarrow> True"
    by (auto split: outcome.splits)
  then have "gameEnded (run 0.29 [Timeout 0 0.99, Timeout 0 0] ?s) = Some (continueCount ?s)
      \<and> continueCount (run 0.29 [Timeout 0 0.99, Timeout 0 0] ?s) = continueCount ?s"
    unfolding res outcome.case .
  with m c0 show ?thesis by (simp only: simp_thms)
qed

section \<open>Rounds complete once\<close>

lemma settled_stopReel_noop: "settled c \<Longrightarrow> stopReel rate i u c s = s"
  by (rule stopReel_invalid) (auto simp: settled_def list_all_length)

lemma roundOver_step:
  assumes inv: "sessionInv s" and ov: "roundOver s" and ns: "\<not> startsRound e s"
  shows "roundOver (step rate e s) \<and> invokesCheck e s = None"
proof (cases "gameEnded s")
  case (Some c)
  then have "step rate e s = s" by (simp add: step_def)
  moreover have "invokesCheck e s = None" using Some by (cases e) simp_all
  ultimately show ?thesis using ov by simp
next
  case None
  have st: "settled s" using ov by (simp add: roundOver_def)
  show ?thesis
  proof (cases e)
    case (StopReel i u)
    then show ?thesis using ov None st by (simp add: step_def settled_stopReel_noop)
  next
    case (Timeout n u)
    from ov consider (a) "timers s = []" | (b) "timers s = [TRestart]"
      | (c) "timers s = [TEnd (continueCount s)]"
      by (auto simp: roundOver_def)
    then show ?thesis
    proof cases
      case a
      then show ?thesis using Timeout ov None by (simp add: step_def fireTimer_def)
    next
      case b
      have "n \<noteq> 0"
      proof
        assume "n = 0"
        with b Timeout None have "startsRound e s" by simp
        with ns show False by simp
      qed
      then show ?thesis using Timeout ov None b by (simp add: step_def fireTimer_def)
    next
      case c
      show ?thesis
      proof (cases "n = 0")
        case True
        then show ?thesis using Timeout None c st
          by (simp add: step_def fireTimer_def roundOver_def settled_def)
      next
        case False
        then show ?thesis using Timeout ov None c by (simp add: step_def fireTimer_def)
      qed
    qed
  next
    case DrinkClose
    show ?thesis
    proof (cases "showDrinkModal s")
      case True
      with inv_settled [OF inv st] have t: "timers s = []" by (auto simp: modalOpen_def)
      then show ?thesis using DrinkClose None True st
        by (simp add: step_def handleDrinkModalClose_def showBlackoutAndProceed_def Let_def
            roundOver_def settled_def)
    next
      case False
      then show ?thesis using DrinkClose None ov by (simp add: step_def)
    qed
  next
    case (PremiumDone v)
    show ?thesis
    proof (cases "showPremiumModal s")
      case True
      with inv_settled [OF inv st] have t: "timers s = []" by (auto simp: modalOpen_def)
      then show ?thesis using PremiumDone None True st
        by (simp add: step_def premiumModal_def handlePremiumModalClose_def
            showBlackoutAndProceed_def Let_def roundOver_def settled_def)
    next
      case False
      then show ?thesis using PremiumDone None ov by (simp add: step_def)
    qed
  qed
qed

lemma roundChecks_over:
  "sessionInv s \<Longrightarrow> roundOver s \<Longrightarrow> roundChecks rate es s = []"
proof (induction es arbitrary: s)
  case Nil
  then show ?case by simp
next
  case (Cons e es)
  show ?case
  proof (cases "startsRound e s")
    case True
    then show ?thesis by simp
  next
    case False
    from roundOver_step [OF Cons.prems False]
    have ov: "roundOver (step rate e s)" and nc: "invokesCheck e s = None" by simp_all
    have "sessionInv (step rate e s)" using Cons.prems(1) by (rule inv_step)
    from Cons.IH [OF this ov] False nc show ?thesis by simp
  qed
qed

lemma roundOver_checkRoundResult:
  assumes "settled s" "timers s = []"
  shows "roundOver (checkRoundResult rate r u s)"
  using assms
  by (cases "resolve rate (classify r) u")
     (simp_all add: checkRoundResult_def roundOver_def settled_def showBlackoutAndProceed_def
        showBlackoutAndEnd_def Let_def)

lemma check_roundOver:
  assumes inv: "sessionInv s" and chk: "invokesCheck e s = Some r"
  shows "roundOver (step rate e s)" "r = allSpinResults s" "1 \<le> length r" "length r \<le> 3"
    "length r < 3 \<Longrightarrow> hit (last r)" "\<not> startsRound e s"
proof -
  from chk obtain n u where e: "e = Timeout n u" by (cases e) simp_all
  note c = check_step [OF inv chk [unfolded e]]
  have "roundOver (checkRoundResult rate r u (s\<lparr> timers := [] \<rparr>))"
    using c(2) by (intro roundOver_checkRoundResult) (simp_all add: settled_def)
  then show "roundOver (step rate e s)" by (simp add: e c(1))
  show "r = allSpinResults s" "1 \<le> length r" "length r \<le> 3" by (rule c)+
  show "hit (last r)" if "length r < 3" using that by (rule c)
  show "\<not> startsRound e s" using chk e by (auto split: if_splits timer.splits)
qed

lemma roundChecks_bound:
  "sessionInv s \<Longrightarrow>
     length (roundChecks rate es s) \<le> 1
     \<and> list_all (\<lambda>r. 1 \<le> length r \<and> length r \<le> 3) (roundChecks rate es s)"
proof (induction es arbitrary: s)
  case Nil
  then show ?case by simp
next
  case (Cons e es)
  have inv': "sessionInv (step rate e s)" using Cons.prems by (rule inv_step)
  show ?case
  proof (cases "startsRound e s")
    case True
    then show ?thesis by simp
  next
    case False
    show ?thesis
    proof (cases "invokesCheck e s")
      case None
      with False Cons.IH [OF inv'] show ?thesis by simp
    next
      case (Some r)
      note c = check_roundOver [OF Cons.prems Some]
      have "roundChecks rate es (step rate e s) = []"
        using inv' c(1) by (rule roundChecks_over)
      with False Some c(3,4) show ?thesis by simp
    qed
  qed
qed

lemma spin_block:
  assumes inv: "sessionInv s" and sp: "isSpinning s = [True, True, True]"
  shows "\<exists>r. roundChecks rate (spinEvents d @ es) s = [r]
       \<or> (\<exists>s'. roundChecks rate (spinEvents d @ es) s = roundChecks rate es s'
             \<and> sessionInv s' \<and> isSpinning s' = [True, True, True]
             \<and> currentSpinIndex s' = currentSpinIndex s + 1)"
proof -
  obtain a b c w where d: "d = (a, b, c, w)" by (cases d)
  have ns: "\<not> settled s" using sp by (simp add: settled_def)
  note f = inv_spinning [OF inv ns]
  let ?s3 = "step rate (StopReel 2 c) (step rate (StopReel 1 b) (step rate (StopReel 0 a) s))"
  let ?nr = "[Sym (generateWeightedSymbol a), Sym (generateWeightedSymbol b),
              Sym (generateWeightedSymbol c)]"
  note s3 = three_stops [OF sp f(1) f(7), where rate = rate and a = a and b = b and c = c]
  have inv3: "sessionInv ?s3" by (intro inv_step inv)
  have inv4: "sessionInv (step rate (Timeout 0 w) ?s3)" by (intro inv_step inv)
  have ge3: "gameEnded ?s3 = None" unfolding s3 using f(7) by simp
  have unfold: "roundChecks rate (spinEvents d @ es) s =
      (if startsRound (Timeout 0 w) ?s3 then []
       else (case invokesCheck (Timeout 0 w) ?s3 of Some r \<Rightarrow> [r] | None \<Rightarrow> [])
            @ roundChecks rate es (step rate (Timeout 0 w) ?s3))"
    by (simp add: d spinEvents_def)
  show ?thesis
  proof (cases "invokesCheck (Timeout 0 w) ?s3")
    case (Some r)
    note c = check_roundOver [OF inv3 Some]
    have rest: "roundChecks rate es (step rate (Timeout 0 w) ?s3) = []"
      using inv4 c(1) by (rule roundChecks_over)
    have "roundChecks rate (spinEvents d @ es) s = [r]"
      by (simp only: unfold if_not_P [OF c(6)] Some option.case rest append_Cons append_Nil)
    then show ?thesis by blast
  next
    case None
    have nohit: "\<not> hit ?nr" and lt: "currentSpinIndex s < 2"
      using None unfolding s3 using f(4,7) by (auto split: if_splits)
    have s4: "step rate (Timeout 0 w) ?s3 =
        startSpin (currentSpinIndex s + 1)
          (s\<lparr> reels := ?nr, isSpinning := [False, False, False],
              remainingStops := remainingStops s - 3,
              allSpinResults := allSpinResults s @ [?nr], timers := [] \<rparr>)"
      unfolding s3 using f(4,7) nohit lt by (simp add: step_def fireTimer_def)
    have nr: "\<not> startsRound (Timeout 0 w) ?s3"
      unfolding s3 using f(4) nohit by simp
    have a: "isSpinning (step rate (Timeout 0 w) ?s3) = [True, True, True]"
      and b: "currentSpinIndex (step rate (Timeout 0 w) ?s3) = currentSpinIndex s + 1"
      unfolding s4 using lt by (simp_all add: startSpin_def)
    have "roundChecks rate (spinEvents d @ es) s
        = roundChecks rate es (step rate (Timeout 0 w) ?s3)"
      by (simp only: unfold if_not_P [OF nr] None option.case append_Nil)
    with inv4 a b show ?thesis by blast
  qed
qed

lemma play_completes:
  "sessionInv s \<Longrightarrow> isSpinning s = [True, True, True] \<Longrightarrow>
     3 \<le> length ds + currentSpinIndex s \<Longrightarrow>
     length (roundChecks rate (playEvents ds) s) = 1"
proof (induction ds arbitrary: s)
  case Nil
  have "\<not> settled s" using Nil.prems(2) by (simp add: settled_def)
  from inv_spinning(9) [OF Nil.prems(1) this] Nil.prems(3) show ?case by simp
next
  case (Cons d ds)
  have pe: "playEvents (d # ds) = spinEvents d @ playEvents ds" by (simp add: playEvents_def)
  from spin_block [OF Cons.prems(1,2), of rate d "playEvents ds"]
  obtain r where "roundChecks rate (spinEvents d @ playEvents ds) s = [r]
       \<or> (\<exists>s'. roundChecks rate (spinEvents d @ playEvents ds) s = roundChecks rate (playEvents ds) s'
             \<and> sessionInv s' \<and> isSpinning s' = [True, True, True]
             \<and> currentSpinIndex s' = currentSpinIndex s + 1)"
    by blast
  then show ?case
  proof
    assume "roundChecks rate (spinEvents d @ playEvents ds) s = [r]"
    then show ?thesis by (simp add: pe)
  next
    assume "\<exists>s'. roundChecks rate (spinEvents d @ playEvents ds) s = roundChecks rate (playEvents ds) s'
             \<and> sessionInv s' \<and> isSpinning s' = [True, True, True]
             \<and> currentSpinIndex s' = currentSpinIndex s + 1"
    then obtain s' where s': "roundChecks rate (spinEvents d @ playEvents ds) s
          = roundChecks rate (playEvents ds) s'"
        "sessionInv s'" "isSpinning s' = [True, True, True]"
        "currentSpinIndex s' = currentSpinIndex s + 1"
      by blast
    have "3 \<le> length ds + currentSpinIndex s'" using Cons.prems(3) s'(4) by simp
    from Cons.IH [OF s'(2,3) this] s'(1) show ?thesis by (simp add: pe)
  qed
qed

lemma hit_stop_completes:
  assumes inv: "sessionInv s" and ns: "\<not> settled s"
    and st: "settled (stopReel rate i u s s)" and h: "hit (reels (stopReel rate i u s s))"
  shows "timers (stopReel rate i u s s) = [TCheckRound (allSpinResults (stopReel rate i u s s))]"
    "invokesCheck (Timeout 0 w) (stopReel rate i u s s) = Some (allSpinResults (stopReel rate i u s s))"
proof -
  have "i < length (isSpinning s) \<and> isSpinning s ! i"
  proof (rule ccontr)
    assume "\<not> (i < length (isSpinning s) \<and> isSpinning s ! i)"
    then have "stopReel rate i u s s = s" by (rule stopReel_invalid)
    with ns st show False by simp
  qed
  then have v: "i < length (isSpinning s)" "isSpinning s ! i" by simp_all
  note f = inv_spinning [OF inv ns]
  have all: "list_all (\<lambda>b. \<not> b) ((isSpinning s)[i := False])"
    using st by (simp add: settled_def isSpinning_stopReel [OF v])
  have h': "hit ((reels s)[i := Sym (generateWeightedSymbol u)])"
    using h by (simp add: reels_stopReel [OF v])
  show "timers (stopReel rate i u s s) = [TCheckRound (allSpinResults (stopReel rate i u s s))]"
    using all h' f(4) by (simp add: stopReel_valid [OF v] Let_def)
  then show "invokesCheck (Timeout 0 w) (stopReel rate i u s s)
      = Some (allSpinResults (stopReel rate i u s s))"
    using all f(7) by (simp add: stopReel_valid [OF v] Let_def)
qed

text \<open>
  What holds of the rounds of every session, with \<open>hit\<close> the test \<open>stopReel\<close> makes (the
  game screen's cherry literal in the spin, or a small yaku): no recorded spin but the last
  passes it and no reel spins once one does; an event that completes the round hands over
  the whole record, of one to three spins, and fewer than three only when the last spin
  passes the test; the round completes at most once on any sequence of events, and
  exactly once when three spins are played through.
\<close>

lemma round_completion_facts:
  assumes re: "reachable continueRate s"
  shows "list_all (\<lambda>spin. \<not> hit spin) (butlast (allSpinResults s))
    \<and> (list_ex hit (allSpinResults s) \<longrightarrow> settled s)
    \<and> (invokesCheck e s = Some r \<longrightarrow>
          r = allSpinResults s \<and> 1 \<le> length r \<and> length r \<le> 3
          \<and> (length r < 3 \<longrightarrow> hit (last r)))
    \<and> length (roundChecks continueRate es s) \<le> 1
    \<and> list_all (\<lambda>r. 1 \<le> length r \<and> length r \<le> 3) (roundChecks continueRate es s)
    \<and> (freshRound s \<and> 3 \<le> length ds \<longrightarrow>
          length (roundChecks continueRate (playEvents ds) s) = 1)
    \<and> (\<not> settled s \<and> settled (stopReel continueRate i u s s)
          \<and> hit (reels (stopReel continueRate i u s s)) \<longrightarrow>
          timers (stopReel continueRate i u s s)
            = [TCheckRound (allSpinResults (stopReel continueRate i u s s))]
          \<and> invokesCheck (Timeout 0 w) (stopReel continueRate i u s s)
            = Some (allSpinResults (stopReel continueRate i u s s)))"
proof -
  have inv: "sessionInv s" using re by (rule reachable_inv)
  have p1: "list_all (\<lambda>spin. \<not> hit spin) (butlast (allSpinResults s))"
    using inv by (rule inv_general)
  have p2: "settled s" if "list_ex hit (allSpinResults s)"
  proof (rule ccontr)
    assume "\<not> settled s"
    from inv_spinning(10) [OF inv this] have "\<not> list_ex hit (allSpinResults s)"
      by (rule list_ex_hit_not_all)
    with that show False by simp
  qed
  have p3: "r = allSpinResults s \<and> 1 \<le> length r \<and> length r \<le> 3
          \<and> (length r < 3 \<longrightarrow> hit (last r))" if "invokesCheck e s = Some r"
    using check_roundOver(2-5) [OF inv that] by blast
  note p45 = roundChecks_bound [OF inv, of continueRate es]
  have p6: "length (roundChecks continueRate (playEvents ds) s) = 1"
    if "freshRound s \<and> 3 \<le> length ds"
    using inv that by (intro play_completes) (simp_all add: freshRound_def)
  have p7: "timers (stopReel continueRate i u s s)
            = [TCheckRound (allSpinResults (stopReel continueRate i u s s))]
          \<and> invokesCheck (Timeout 0 w) (stopReel continueRate i u s s)
            = Some (allSpinResults (stopReel continueRate i u s s))"
    if "\<not> settled s \<and> settled (stopReel continueRate i u s s)
          \<and> hit (reels (stopReel continueRate i u s s))"
    using hit_stop_completes [OF inv] that by blast
  show ?thesis using p1 p2 p3 p45 p6 p7 by blast
qed

text \<open>A spin of symbols passes the test of \<open>stopReel\<close> only as a small yaku.\<close>

lemma hit_Sym: "hit (map Sym spin) = checkSmallYakuMatch (map Sym spin)"
  by (auto simp: hit_def simp del: checkSmallYakuMatch.simps)

text \<open>
  Claim C2. The first spin of a session stops on cherry, grape, bell. The claim has the
  round complete at once; in the code the delayed callback starts the second spin: after
  it the record holds the spin with the cherry, the three reels spin again, the spin index
  is 1 and \<open>checkRoundResult\<close> has not been called. The test of line 72 looks for a
  string that is none of the six symbols, so a cherry never ends a round early; a small
  yaku does, and the bounds on the record and the single completion hold
  (\<open>round_completion_facts\<close>).
\<close>

theorem cherry_spin_starts_next_spin:
  "allSpinResults (run 0.9 [StopReel 0 0, StopReel 1 0.3, StopReel 2 0.8, Timeout 0 0] mountState)
     = [[Sym Cherry, Sym Grape, Sym Bell]]
   \<and> isSpinning (run 0.9 [StopReel 0 0, StopReel 1 0.3, StopReel 2 0.8, Timeout 0 0] mountState)
     = [True, True, True]
   \<and> currentSpinIndex (run 0.9 [StopReel 0 0, StopReel 1 0.3, StopReel 2 0.8, Timeout 0 0] mountState)
     = 1
   \<and> roundChecks 0.9 [StopReel 0 0, StopReel 1 0.3, StopReel 2 0.8, Timeout 0 0] mountState = []
   \<and> freshRound mountState"
proof -
  have grape: "generateWeightedSymbol (3 / 10) = Grape"
    and bell: "generateWeightedSymbol (4 / 5) = Bell"
    by (simp_all add: generateWeightedSymbol_def totalWeight_def BASE_SYMBOL_WEIGHTS_def)
  have a: "isSpinning mountState = [True, True, True]" "length (reels mountState) = 3"
    "gameEnded mountState = None" "timers mountState = []" "allSpinResults mountState = []"
    "currentSpinIndex mountState = 0"
    by (simp_all add: mount_value initialState_def)
  have h: "\<not> hit [Sym Cherry, Sym Grape, Sym Bell]" by (simp add: hit_def)
  have s3: "step 0.9 (StopReel 2 0.8) (step 0.9 (StopReel 1 0.3) (step 0.9 (StopReel 0 0) mountState))
      = mountState\<lparr> reels := [Sym Cherry, Sym Grape, Sym Bell],
          isSpinning := [False, False, False], remainingStops := remainingStops mountState - 3,
          allSpinResults := [[Sym Cherry, Sym Grape, Sym Bell]],
          timers := [TNextSpin 0 [[Sym Cherry, Sym Grape, Sym Bell]]] \<rparr>"
    using three_stops [OF a(1,2,3), where rate = "0.9" and a = 0 and b = "0.3" and c = "0.8"] a(4,5,6) h
    by (simp add: g0 grape bell)
  have r: "run 0.9 [StopReel 0 0, StopReel 1 0.3, StopReel 2 0.8, Timeout 0 0] mountState
      = startSpin 1 (mountState\<lparr> reels := [Sym Cherry, Sym Grape, Sym Bell],
          isSpinning := [False, False, False], remainingStops := remainingStops mountState - 3,
          allSpinResults := [[Sym Cherry, Sym Grape, Sym Bell]], timers := [] \<rparr>)"
    using s3 a(3) by (simp add: step_def fireTimer_def)
  have c: "roundChecks 0.9 [StopReel 0 0, StopReel 1 0.3, StopReel 2 0.8, Timeout 0 0] mountState = []"
    using s3 a(3) by simp
  have f: "freshRound mountState" by (simp add: freshRound_def mount_value initialState_def)
  show ?thesis unfolding r using c f by (simp add: startSpin_def)
qed

section \<open>Records hold resolved symbols\<close>

text \<open>
  Every record a session builds is a list of spins of three symbols. So the loop of
  \<open>checkRoundResult\<close> counts no cherry on any record that reaches it, and \<open>stopReel\<close>
  ends a round early for a small yaku only.
\<close>

lemma resolvedSpin_Sym: "resolvedSpin spin \<longleftrightarrow> (\<exists>a b c. spin = [Sym a, Sym b, Sym c])"
proof
  assume "resolvedSpin spin"
  then obtain x y z where s: "spin = [x, y, z]" and "isSymbol x" "isSymbol y" "isSymbol z"
    by (auto simp: resolvedSpin_def three_list)
  then show "\<exists>a b c. spin = [Sym a, Sym b, Sym c]"
    by (auto simp: isSymbol_iff)
next
  assume "\<exists>a b c. spin = [Sym a, Sym b, Sym c]"
  then show "resolvedSpin spin" by (auto simp: resolvedSpin_def)
qed

lemma allSpinResults_checkRoundResult:
  "allSpinResults (checkRoundResult rate r u s) = allSpinResults s"
  by (cases "resolve rate (classify r) u")
     (simp_all add: checkRoundResult_def showBlackoutAndProceed_def showBlackoutAndEnd_def Let_def)

lemma allSpinResults_fireTimer:
  "allSpinResults (fireTimer rate n u s) = allSpinResults s
   \<or> allSpinResults (fireTimer rate n u s) = []"
proof (cases "n < length (timers s)")
  case False
  then show ?thesis by (simp add: fireTimer_def)
next
  case True
  then show ?thesis
    by (cases "timers s ! n")
       (simp_all add: fireTimer_def allSpinResults_checkRoundResult startSpin_def
          startNewRound_def)
qed

lemma resolved_stopReel:
  assumes inv: "sessionInv s" and res: "list_all resolvedSpin (allSpinResults s)"
  shows "list_all resolvedSpin (allSpinResults (stopReel rate i u s s))"
proof (cases "i < length (isSpinning s) \<and> isSpinning s ! i")
  case False
  then show ?thesis using res by (simp add: stopReel_def)
next
  case True
  then have v: "i < length (isSpinning s)" "isSpinning s ! i" by simp_all
  have ns: "\<not> settled s" using v by (rule valid_not_settled)
  note f = inv_spinning [OF inv ns]
  let ?nr = "(reels s)[i := Sym (generateWeightedSymbol u)]"
  show ?thesis
  proof (cases "list_all (\<lambda>b. \<not> b) ((isSpinning s)[i := False])")
    case False
    then show ?thesis using res by (simp add: stopReel_valid [OF v] Let_def)
  next
    case True
    have stopped: "\<not> isSpinning s ! j" if "j < 3" "j \<noteq> i" for j
    proof -
      from True have "\<forall>n < length ((isSpinning s)[i := False]). \<not> (isSpinning s)[i := False] ! n"
        by (simp only: list_all_length)
      with that(1) f(2) have "\<not> (isSpinning s)[i := False] ! j" by simp
      with that(2) show ?thesis by simp
    qed
    have sym: "isSymbol (?nr ! j)" if "j < 3" for j
    proof (cases "j = i")
      case True
      with that f(1) show ?thesis by simp
    next
      case False
      have "j \<in> set [0, 1, 2 :: nat]" using that by auto
      with f(11) have "isSpinning s ! j \<or> isSymbol (reels s ! j)"
        unfolding list_all_iff by blast
      with stopped [OF that False] False show ?thesis by simp
    qed
    have "resolvedSpin ?nr"
      using sym f(1) by (simp add: resolvedSpin_def list_all_length)
    then show ?thesis using res True by (simp add: stopReel_valid [OF v] Let_def)
  qed
qed

lemma reachable_resolved:
  "reachable rate s \<Longrightarrow> list_all resolvedSpin (allSpinResults s)"
proof (induction rule: reachable.induct)
  case mount
  show ?case by (simp add: mount_value initialState_def)
next
  case (step s e)
  have inv: "sessionInv s" using step.hyps by (rule reachable_inv)
  show ?case
  proof (cases "gameEnded s = None")
    case False
    then show ?thesis using step.IH by (simp add: step_def)
  next
    case True
    show ?thesis
    proof (cases e)
      case (StopReel i u)
      then show ?thesis using True resolved_stopReel [OF inv step.IH] by (simp add: step_def)
    next
      case (Timeout n u)
      then show ?thesis using True step.IH allSpinResults_fireTimer [of rate n u s]
        by (auto simp: step_def)
    next
      case DrinkClose
      then show ?thesis using True step.IH
        by (simp add: step_def handleDrinkModalClose_def showBlackoutAndProceed_def Let_def)
    next
      case (PremiumDone v)
      then show ?thesis using True step.IH
        by (simp add: step_def premiumModal_def handlePremiumModalClose_def
            showBlackoutAndProceed_def Let_def)
    qed
  qed
qed

lemma resolved_record_symbols:
  "list_all resolvedSpin r \<Longrightarrow> \<exists>rr. r = map (map Sym) rr"
proof (induction r)
  case Nil
  show ?case by simp
next
  case (Cons spin r)
  then obtain rr where rr: "r = map (map Sym) rr" by auto
  from Cons.prems obtain a b c where "spin = map Sym [a, b, c]"
    by (auto simp: resolvedSpin_Sym)
  with rr have "spin # r = map (map Sym) ([a, b, c] # rr)" by simp
  then show ?case by (rule exI)
qed

lemma reachable_record_symbols:
  "reachable rate s \<Longrightarrow> \<exists>rr. allSpinResults s = map (map Sym) rr"
  by (rule resolved_record_symbols) (rule reachable_resolved)

lemma reachable_counts_no_cherry:
  assumes "reachable rate s"
  shows "cherryCount (classify (allSpinResults s)) = 0"
proof -
  from reachable_record_symbols [OF assms] obtain rr where "allSpinResults s = map (map Sym) rr"
    by blast
  then show ?thesis by (simp add: classify_on_symbols)
qed

lemma reachable_hit_is_yaku:
  assumes "reachable rate s" "spin \<in> set (allSpinResults s)"
  shows "hit spin = checkSmallYakuMatch spin"
proof -
  from reachable_record_symbols [OF assms(1)] obtain rr where "allSpinResults s = map (map Sym) rr"
    by blast
  with assms(2) obtain sp where "spin = map Sym sp" by auto
  then show ?thesis by (simp only: hit_Sym)
qed

end
